theory Spec2Isabelle
  imports Complex_Main "HOL-Library.AList" "HOL-Library.Sublist" "HOL-Library.Multiset"
begin

section \<open>Python values the program handles\<close>

text \<open>
  The exceptions that the library calls of \<^verbatim>\<open>annotationExplorer.py\<close> raise. A call that
  may raise returns \<open>error + 'a\<close>, with \<open>Inl\<close> for the exception.
\<close>

datatype error =
    ParseError | JSONDecodeError | UnicodeDecodeError | LookupError | TypeError
  | FileNotFoundError | FileExistsError | NotADirectoryError | IsADirectoryError
  | DirectoryNotEmpty | ShutilError | BadZipFile

definition and_then :: "error + 'a \<Rightarrow> ('a \<Rightarrow> error + 'b) \<Rightarrow> error + 'b" where
  "and_then m f = (case m of Inl e \<Rightarrow> Inl e | Inr x \<Rightarrow> f x)"

text \<open>
  \<^verbatim>\<open>try: body  except E: pass  return False\<close> for a body that returns a truth value:
  an exception that the clause catches gives \<open>False\<close>, any other one propagates.
\<close>

definition try_except :: "(error \<Rightarrow> bool) \<Rightarrow> error + bool \<Rightarrow> error + bool" where
  "try_except caught body =
     (case body of Inl e \<Rightarrow> (if caught e then Inr False else Inl e) | Inr b \<Rightarrow> Inr b)"

subsection \<open>Strings\<close>

text \<open>
  A Python \<open>str\<close> is a sequence of code points. A \<open>char\<close> stands for a code point
  from U+0000 to U+00FF; the predicates below are those of Python on that range.
\<close>

definition isspace_char :: "char \<Rightarrow> bool" where
  "isspace_char c = ((of_char c :: nat) \<in> {9, 10, 11, 12, 13, 28, 29, 30, 31, 32, 133, 160})"

definition isdecimal_char :: "char \<Rightarrow> bool" where
  "isdecimal_char c = (48 \<le> (of_char c :: nat) \<and> (of_char c :: nat) \<le> 57)"

text \<open>\<open>str.isdigit\<close> also accepts the superscript digits U+00B2, U+00B3 and U+00B9.\<close>

definition isdigit_char :: "char \<Rightarrow> bool" where
  "isdigit_char c = (isdecimal_char c \<or> (of_char c :: nat) \<in> {178, 179, 185})"

definition isdigit :: "string \<Rightarrow> bool" where
  "isdigit s = (s \<noteq> [] \<and> list_all isdigit_char s)"

definition lower_char :: "char \<Rightarrow> char" where
  "lower_char c =
     (let n = (of_char c :: nat)
      in if (65 \<le> n \<and> n \<le> 90) \<or> (192 \<le> n \<and> n \<le> 222 \<and> n \<noteq> 215)
         then char_of (n + 32) else c)"

definition lower :: "string \<Rightarrow> string" where
  "lower s = map lower_char s"

definition endswith :: "string \<Rightarrow> string \<Rightarrow> bool" where
  "endswith s suf = suffix suf s"

definition endswith_any :: "string \<Rightarrow> string list \<Rightarrow> bool" where
  "endswith_any s sufs = list_ex (endswith s) sufs"

text \<open>\<open>s.strip()\<close> and \<open>s.split()\<close>, both on whitespace.\<close>

definition strip :: "string \<Rightarrow> string" where
  "strip s = rev (dropWhile isspace_char (rev (dropWhile isspace_char s)))"

fun split_from :: "string \<Rightarrow> string \<Rightarrow> string list" where
  "split_from cur [] = (if cur = [] then [] else [rev cur])"
| "split_from cur (c # s) =
     (if isspace_char c
      then (if cur = [] then split_from [] s else rev cur # split_from [] s)
      else split_from (c # cur) s)"

definition split :: "string \<Rightarrow> string list" where
  "split s = split_from [] s"

text \<open>\<open>part.replace('.', '', 1)\<close>: the first full stop is removed.\<close>

fun replace_dot_once :: "string \<Rightarrow> string" where
  "replace_dot_once [] = []"
| "replace_dot_once (c # s) = (if c = CHR ''.'' then s else c # replace_dot_once s)"

text \<open>
  A file opened in text mode translates \<open>\r\n\<close> and \<open>\r\<close> to \<open>\n\<close>;
  \<open>readlines\<close> cuts the text after each \<open>\n\<close> and keeps it in the line.
\<close>

fun universal_newlines :: "string \<Rightarrow> string" where
  "universal_newlines [] = []"
| "universal_newlines [c] = (if c = CHR 0x0D then [CHR 0x0A] else [c])"
| "universal_newlines (c # d # s) =
     (if c = CHR 0x0D \<and> d = CHR 0x0A then CHR 0x0A # universal_newlines s
      else if c = CHR 0x0D then CHR 0x0A # universal_newlines (d # s)
      else c # universal_newlines (d # s))"

fun lines_from :: "string \<Rightarrow> string \<Rightarrow> string list" where
  "lines_from cur [] = (if cur = [] then [] else [rev cur])"
| "lines_from cur (c # s) =
     (if c = CHR 0x0A then rev (c # cur) # lines_from [] s else lines_from (c # cur) s)"

definition readlines :: "string \<Rightarrow> string list" where
  "readlines text = lines_from [] (universal_newlines text)"

text \<open>\<open>needle in haystack\<close> on two strings.\<close>

fun substring :: "string \<Rightarrow> string \<Rightarrow> bool" where
  "substring needle [] = (needle = [])"
| "substring needle (c # s) = (prefix needle (c # s) \<or> substring needle s)"

text \<open>\<open>os.path.basename\<close>: what follows the last \<open>/\<close>.\<close>

definition basename :: "string \<Rightarrow> string" where
  "basename p = rev (takeWhile (\<lambda>c. c \<noteq> CHR ''/'') (rev p))"

subsection \<open>Parsed documents\<close>

text \<open>An element of \<open>xml.etree.ElementTree\<close>: its tag and its child elements.\<close>

datatype element = Element (tag: string) (children: "element list")

text \<open>\<open>el.find(t)\<close> for a plain tag \<open>t\<close>: the first child with that tag.\<close>

definition find_child :: "element \<Rightarrow> string \<Rightarrow> element option" where
  "find_child el t = List.find (\<lambda>ch. tag ch = t) (children el)"

text \<open>What \<open>json.load\<close> returns.\<close>

datatype json =
    JNone | JBool bool | JInt int | JFloat real | JStr string
  | JList "json list" | JDict "(string \<times> json) list"

text \<open>\<open>key in data\<close> for a string \<open>key\<close>.\<close>

fun py_in :: "string \<Rightarrow> json \<Rightarrow> error + bool" where
  "py_in key (JDict kvs) = Inr (key \<in> fst ` set kvs)"
| "py_in key (JList xs) = Inr (JStr key \<in> set xs)"
| "py_in key (JStr s) = Inr (substring key s)"
| "py_in key JNone = Inl TypeError"
| "py_in key (JBool b) = Inl TypeError"
| "py_in key (JInt i) = Inl TypeError"
| "py_in key (JFloat x) = Inl TypeError"

text \<open>\<open>a and b\<close> where both operands may raise: \<open>b\<close> is evaluated only if \<open>a\<close> is true.\<close>

definition py_and :: "error + bool \<Rightarrow> error + bool \<Rightarrow> error + bool" where
  "py_and a b = and_then a (\<lambda>x. if x then b else Inr False)"

subsection \<open>Files\<close>

text \<open>
  A file is what the three library calls the program applies to it return: reading it as
  text (\<open>open(path, 'r')\<close> and \<open>read\<close>), \<open>ET.parse(path)\<close> and \<open>json.load\<close>.
\<close>

record content =
  read_text :: "error + string"
  ET_parse :: "error + element"
  json_load :: "error + json"


section \<open>The file system\<close>

text \<open>
  The working directory is a tree. A directory lists its entries in the order in which
  \<open>os.scandir\<close> yields them; the first entry of a name is the one the name denotes.
  A path is the list of its components, relative to the working directory.
\<close>

type_synonym name = string
type_synonym path = "name list"

datatype node = File content | Dir "(name \<times> node) list"

fun lookup :: "node \<Rightarrow> path \<Rightarrow> node option" where
  "lookup n [] = Some n"
| "lookup (File c) (x # p) = None"
| "lookup (Dir es) (x # p) = (case map_of es x of None \<Rightarrow> None | Some n \<Rightarrow> lookup n p)"

text \<open>\<open>modify p f t\<close> applies \<open>f\<close> to the node at \<open>p\<close>, if there is one.\<close>

fun modify :: "path \<Rightarrow> (node \<Rightarrow> node) \<Rightarrow> node \<Rightarrow> node" where
  "modify [] f t = f t"
| "modify (x # p) f (File c) = File c"
| "modify (x # p) f (Dir es) =
     (case map_of es x of None \<Rightarrow> Dir es
      | Some n \<Rightarrow> Dir (AList.update x (modify p f n) es))"

definition set_entry :: "name \<Rightarrow> node \<Rightarrow> node \<Rightarrow> node" where
  "set_entry x new d = (case d of File c \<Rightarrow> File c | Dir es \<Rightarrow> Dir (AList.update x new es))"

definition remove_entry :: "name \<Rightarrow> node \<Rightarrow> node" where
  "remove_entry x d = (case d of File c \<Rightarrow> File c | Dir es \<Rightarrow> Dir (AList.delete x es))"

text \<open>
  \<open>put p new t\<close> binds the last component of \<open>p\<close> to \<open>new\<close> in its parent directory
  (a new name is listed last); \<open>del p t\<close> removes that binding with all that is below it.
\<close>

definition put :: "path \<Rightarrow> node \<Rightarrow> node \<Rightarrow> node" where
  "put p new t = (if p = [] then new else modify (butlast p) (set_entry (last p) new) t)"

definition del :: "path \<Rightarrow> node \<Rightarrow> node" where
  "del p t = (if p = [] then t else modify (butlast p) (remove_entry (last p)) t)"

fun is_dir :: "node \<Rightarrow> bool" where
  "is_dir (Dir es) = True"
| "is_dir (File c) = False"

definition dirnames :: "(name \<times> node) list \<Rightarrow> name list" where
  "dirnames es = map fst (filter (\<lambda>e. is_dir (snd e)) es)"

definition filenames :: "(name \<times> node) list \<Rightarrow> name list" where
  "filenames es = map fst (filter (\<lambda>e. \<not> is_dir (snd e)) es)"

subsection \<open>The calls of \<open>os\<close> and \<open>shutil\<close> that the program makes\<close>

definition os_path_exists :: "node \<Rightarrow> path \<Rightarrow> bool" where
  "os_path_exists t p = (lookup t p \<noteq> None)"

definition os_path_isdir :: "node \<Rightarrow> path \<Rightarrow> bool" where
  "os_path_isdir t p = (case lookup t p of Some (Dir es) \<Rightarrow> True | _ \<Rightarrow> False)"

text \<open>\<open>os.makedirs(p, exist_ok=True)\<close>.\<close>

fun os_makedirs :: "path \<Rightarrow> node \<Rightarrow> error + node" where
  "os_makedirs [] (Dir es) = Inr (Dir es)"
| "os_makedirs [] (File c) = Inl FileExistsError"
| "os_makedirs (x # p) (File c) = Inl NotADirectoryError"
| "os_makedirs (x # p) (Dir es) =
     and_then (os_makedirs p (case map_of es x of None \<Rightarrow> Dir [] | Some n \<Rightarrow> n))
       (\<lambda>n'. Inr (Dir (AList.update x n' es)))"

text \<open>\<open>os.mkdir(p)\<close>.\<close>

definition os_mkdir :: "path \<Rightarrow> node \<Rightarrow> error + node" where
  "os_mkdir p t =
     (case lookup t (butlast p) of
        None \<Rightarrow> Inl FileNotFoundError
      | Some (File c) \<Rightarrow> Inl NotADirectoryError
      | Some (Dir es) \<Rightarrow>
          if os_path_exists t p then Inl FileExistsError else Inr (put p (Dir []) t))"

text \<open>\<open>open(p, 'r')\<close>, and \<open>open(p, 'w')\<close> followed by writing the whole content.\<close>

definition open_read :: "node \<Rightarrow> path \<Rightarrow> error + content" where
  "open_read t p =
     (case lookup t p of
        None \<Rightarrow> Inl FileNotFoundError
      | Some (Dir es) \<Rightarrow> Inl IsADirectoryError
      | Some (File c) \<Rightarrow> Inr c)"

definition open_write :: "path \<Rightarrow> content \<Rightarrow> node \<Rightarrow> error + node" where
  "open_write p c t =
     (case lookup t (butlast p) of
        None \<Rightarrow> Inl FileNotFoundError
      | Some (File c') \<Rightarrow> Inl NotADirectoryError
      | Some (Dir es) \<Rightarrow>
          if os_path_isdir t p then Inl IsADirectoryError else Inr (put p (File c) t))"

definition os_remove :: "path \<Rightarrow> node \<Rightarrow> error + node" where
  "os_remove p t =
     (case lookup t p of
        None \<Rightarrow> Inl FileNotFoundError
      | Some (Dir es) \<Rightarrow> Inl IsADirectoryError
      | Some (File c) \<Rightarrow> Inr (del p t))"

definition shutil_rmtree :: "path \<Rightarrow> node \<Rightarrow> error + node" where
  "shutil_rmtree p t =
     (case lookup t p of
        None \<Rightarrow> Inl FileNotFoundError
      | Some (File c) \<Rightarrow> Inl NotADirectoryError
      | Some (Dir es) \<Rightarrow> Inr (del p t))"

definition os_rmdir :: "path \<Rightarrow> node \<Rightarrow> error + node" where
  "os_rmdir p t =
     (case lookup t p of
        None \<Rightarrow> Inl FileNotFoundError
      | Some (File c) \<Rightarrow> Inl NotADirectoryError
      | Some (Dir es) \<Rightarrow> if es = [] then Inr (del p t) else Inl DirectoryNotEmpty)"

text \<open>
  \<open>os.rename(src, dst)\<close> of a regular file, as POSIX has it: an existing file at \<open>dst\<close>
  is replaced. The program renames regular files only; for a directory at \<open>src\<close> the
  model answers \<open>IsADirectoryError\<close>.
\<close>

definition os_rename :: "path \<Rightarrow> path \<Rightarrow> node \<Rightarrow> error + node" where
  "os_rename src dst t =
     (case lookup t src of
        None \<Rightarrow> Inl FileNotFoundError
      | Some (Dir es) \<Rightarrow> Inl IsADirectoryError
      | Some (File c) \<Rightarrow>
          (case lookup t (butlast dst) of
             None \<Rightarrow> Inl FileNotFoundError
           | Some (File c') \<Rightarrow> Inl NotADirectoryError
           | Some (Dir es) \<Rightarrow>
               if os_path_isdir t dst then Inl IsADirectoryError
               else Inr (put dst (File c) (del src t))))"

text \<open>
  \<open>shutil.move(src, dst)\<close>: into \<open>dst\<close> when that is a directory, where an entry of the
  same name is an error; onto \<open>dst\<close> otherwise.
\<close>

definition shutil_move :: "path \<Rightarrow> path \<Rightarrow> node \<Rightarrow> error + node" where
  "shutil_move src dst t =
     (if os_path_isdir t dst
      then (let real_dst = dst @ [last src]
            in if os_path_exists t real_dst then Inl ShutilError else os_rename src real_dst t)
      else os_rename src dst t)"

text \<open>
  \<open>os.walk(dirpath)\<close>, top-down and bottom-up: for each directory its path, the names
  of its subdirectories and the names of its other entries. A path that is not a directory
  yields nothing.
\<close>

type_synonym visit = "path \<times> name list \<times> name list"

fun os_walk :: "path \<Rightarrow> node \<Rightarrow> visit list"
  and os_walk_entries :: "path \<Rightarrow> (name \<times> node) list \<Rightarrow> visit list" where
  "os_walk dirpath (File c) = []"
| "os_walk dirpath (Dir es) = (dirpath, dirnames es, filenames es) # os_walk_entries dirpath es"
| "os_walk_entries dirpath [] = []"
| "os_walk_entries dirpath (e # es) = os_walk (dirpath @ [fst e]) (snd e) @ os_walk_entries dirpath es"

fun os_walk_bottomup :: "path \<Rightarrow> node \<Rightarrow> visit list"
  and os_walk_bottomup_entries :: "path \<Rightarrow> (name \<times> node) list \<Rightarrow> visit list" where
  "os_walk_bottomup dirpath (File c) = []"
| "os_walk_bottomup dirpath (Dir es) =
     os_walk_bottomup_entries dirpath es @ [(dirpath, dirnames es, filenames es)]"
| "os_walk_bottomup_entries dirpath [] = []"
| "os_walk_bottomup_entries dirpath (e # es) =
     os_walk_bottomup (dirpath @ [fst e]) (snd e) @ os_walk_bottomup_entries dirpath es"


section \<open>The class \<open>AnnotationExplorer\<close>\<close>

text \<open>
  The state the methods act on: the attributes of the object and the file system.
  Method names drop the leading underscore of the source.
\<close>

record explorer =
  zip_path :: string
  base_dir :: path
  train_images_dir :: path
  cocos_dir :: path
  extract_dir :: path
  identified_format :: "string option"
  num_images :: int
  num_annotations :: int
  fs :: node

subsection \<open>\<open>_create_folder_structure\<close> and \<open>__init__\<close>\<close>

definition default_coco_structure :: "(string \<times> json) list" where
  "default_coco_structure =
     [(''info'', JDict []), (''images'', JList []), (''categories'', JList []),
      (''licenses'', JList []), (''errors'', JList []), (''annotations'', JList []),
      (''labels'', JList []), (''classifications'', JList []),
      (''augmentation_settings'', JDict []), (''tile_settings'', JDict []),
      (''False_positive'', JDict [])]"

text \<open>
  The text \<open>json.dump(d, f, indent=4)\<close> writes for a dictionary \<open>d\<close> whose values are
  empty lists and empty dictionaries, as those of the default structure are.
\<close>

fun dump_empty :: "json \<Rightarrow> string" where
  "dump_empty (JDict kvs) = ''{}''"
| "dump_empty v = ''[]''"

fun dump_members :: "(string \<times> json) list \<Rightarrow> string" where
  "dump_members [] = []"
| "dump_members [kv] =
     ''    '' @ [CHR 0x22] @ fst kv @ [CHR 0x22] @ '': '' @ dump_empty (snd kv) @ [CHR 0x0A]"
| "dump_members (kv # kvs) =
     ''    '' @ [CHR 0x22] @ fst kv @ [CHR 0x22] @ '': '' @ dump_empty (snd kv) @ '','' @ [CHR 0x0A]
       @ dump_members kvs"

definition json_dump_indent4 :: "(string \<times> json) list \<Rightarrow> string" where
  "json_dump_indent4 kvs = ''{'' @ [CHR 0x0A] @ dump_members kvs @ ''}''"

definition coco_file_content :: content where
  "coco_file_content =
     \<lparr>read_text = Inr (json_dump_indent4 default_coco_structure),
      ET_parse = Inl ParseError,
      json_load = Inr (JDict default_coco_structure)\<rparr>"

fun write_coco_files :: "path \<Rightarrow> name list \<Rightarrow> node \<Rightarrow> error + node" where
  "write_coco_files cocos [] t = Inr t"
| "write_coco_files cocos (coco_file # coco_files) t =
     and_then (open_write (cocos @ [coco_file]) coco_file_content t)
       (write_coco_files cocos coco_files)"

definition create_folder_structure :: "string \<Rightarrow> node \<Rightarrow> error + (node \<times> path \<times> path \<times> path)" where
  "create_folder_structure zp t =
     (let dataset_name = basename zp;
          base = [''converted_'' @ dataset_name];
          train_images = base @ [''train_images''];
          validation_images = base @ [''validation_images''];
          cocos = base @ [''cocos'']
      in and_then (os_makedirs base t) (\<lambda>t1.
         and_then (os_makedirs train_images t1) (\<lambda>t2.
         and_then (os_makedirs validation_images t2) (\<lambda>t3.
         and_then (os_makedirs cocos t3) (\<lambda>t4.
         and_then (write_coco_files cocos [''val_coco.json'', ''test_coco.json''] t4) (\<lambda>t5.
         Inr (t5, base, train_images, cocos)))))))"

definition init :: "string \<Rightarrow> node \<Rightarrow> error + explorer" where
  "init zp t =
     and_then (create_folder_structure zp t) (\<lambda>(t', base, train_images, cocos).
       Inr \<lparr>zip_path = zp, base_dir = base, train_images_dir = train_images,
            cocos_dir = cocos, extract_dir = [''extracted_files''],
            identified_format = None, num_images = 0, num_annotations = 0, fs = t'\<rparr>)"

subsection \<open>\<open>extract_zip\<close>\<close>

text \<open>
  An archive is the list of its members, each with its sanitised name split into
  components. \<open>extractall\<close> creates the missing parent directories of a member and then
  the member itself.
\<close>

datatype member = ZFile content | ZDir

type_synonym archive = "(path \<times> member) list"

definition extract_member :: "path \<Rightarrow> path \<times> member \<Rightarrow> node \<Rightarrow> error + node" where
  "extract_member dest m t =
     (let targetpath = dest @ fst m; upperdirs = butlast targetpath
      in and_then (if \<not> os_path_exists t upperdirs then os_makedirs upperdirs t else Inr t)
           (\<lambda>t1. case snd m of
                    ZDir \<Rightarrow> if \<not> os_path_isdir t1 targetpath then os_mkdir targetpath t1 else Inr t1
                  | ZFile c \<Rightarrow> open_write targetpath c t1))"

fun extractall :: "path \<Rightarrow> archive \<Rightarrow> node \<Rightarrow> error + node" where
  "extractall dest [] t = Inr t"
| "extractall dest (m # ms) t = and_then (extract_member dest m t) (extractall dest ms)"

text \<open>\<open>zf\<close> is what \<open>zipfile.ZipFile(self.zip_path, 'r')\<close> gives: the archive, or an error.\<close>

definition extract_zip :: "error + archive \<Rightarrow> explorer \<Rightarrow> error + explorer" where
  "extract_zip zf self =
     and_then (os_makedirs (extract_dir self) (fs self)) (\<lambda>t1.
     and_then zf (\<lambda>members.
     and_then (extractall (extract_dir self) members t1) (\<lambda>t2.
     Inr (self\<lparr>fs := t2\<rparr>))))"

subsection \<open>The sniffers\<close>

definition is_pascal_voc :: "node \<Rightarrow> path \<Rightarrow> error + bool" where
  "is_pascal_voc t file_path =
     try_except (\<lambda>e. e = ParseError)
       (and_then (and_then (open_read t file_path) ET_parse) (\<lambda>el.
          Inr (tag el = ''annotation'' \<and> find_child el ''object'' \<noteq> None)))"

fun yolo_lines :: "string list \<Rightarrow> bool" where
  "yolo_lines [] = False"
| "yolo_lines (line # lines) =
     (let parts = split (strip line)
      in if length parts = 5 \<and> list_all (\<lambda>part. isdigit (replace_dot_once part)) parts
         then True else yolo_lines lines)"

definition is_yolo :: "node \<Rightarrow> path \<Rightarrow> error + bool" where
  "is_yolo t file_path =
     try_except (\<lambda>e. True)
       (and_then (and_then (open_read t file_path) read_text) (\<lambda>text.
          Inr (yolo_lines (readlines text))))"

definition is_coco :: "node \<Rightarrow> path \<Rightarrow> error + bool" where
  "is_coco t file_path =
     try_except (\<lambda>e. e = JSONDecodeError)
       (and_then (and_then (open_read t file_path) json_load) (\<lambda>data.
          py_and (py_in ''annotations'' data)
            (py_and (py_in ''images'' data) (py_in ''categories'' data))))"

subsection \<open>\<open>_move_file\<close> and \<open>organize_files_and_identify_format\<close>\<close>

definition move_file :: "path \<Rightarrow> path \<Rightarrow> node \<Rightarrow> error + node" where
  "move_file file_path destination_folder t =
     and_then (os_makedirs destination_folder t) (shutil_move file_path destination_folder)"

text \<open>The body of the inner loop, for the file \<open>file\<close> of the directory \<open>dirpath\<close>.\<close>

definition organize_file :: "path \<Rightarrow> name \<Rightarrow> explorer \<Rightarrow> error + explorer" where
  "organize_file dirpath file self =
     (let annotations_dir = base_dir self @ [''annotations''];
          images_dir = train_images_dir self;
          file_path = dirpath @ [file]
      in if endswith_any (lower file) [''.png'', ''.jpg'', ''.jpeg'']
         then and_then (shutil_move file_path (images_dir @ [file]) (fs self)) (\<lambda>t.
                Inr (self\<lparr>fs := t, num_images := num_images self + 1\<rparr>))
         else if endswith file ''.xml''
         then and_then (is_pascal_voc (fs self) file_path) (\<lambda>b.
                if b
                then and_then (move_file file_path (annotations_dir @ [''xml'']) (fs self)) (\<lambda>t.
                       Inr (self\<lparr>fs := t, identified_format := Some ''Pascal VOC'',
                                 num_annotations := num_annotations self + 1\<rparr>))
                else Inr self)
         else if endswith file ''.txt''
         then and_then (is_yolo (fs self) file_path) (\<lambda>b.
                if b
                then and_then (move_file file_path (annotations_dir @ [''yolo'']) (fs self)) (\<lambda>t.
                       Inr (self\<lparr>fs := t, identified_format := Some ''YOLO'',
                                 num_annotations := num_annotations self + 1\<rparr>))
                else Inr self)
         else if endswith file ''.json''
         then and_then (is_coco (fs self) file_path) (\<lambda>b.
                if b
                then and_then (move_file file_path (annotations_dir @ [''coco'']) (fs self)) (\<lambda>t.
                       Inr (self\<lparr>fs := t, identified_format := Some ''COCO'',
                                 num_annotations := num_annotations self + 1\<rparr>))
                else Inr self)
         else Inr self)"

fun organize_files :: "path \<Rightarrow> name list \<Rightarrow> explorer \<Rightarrow> error + explorer" where
  "organize_files dirpath [] self = Inr self"
| "organize_files dirpath (file # files) self =
     and_then (organize_file dirpath file self) (organize_files dirpath files)"

fun organize_visits :: "visit list \<Rightarrow> explorer \<Rightarrow> error + explorer" where
  "organize_visits [] self = Inr self"
| "organize_visits (v # vs) self =
     and_then (organize_files (fst v) (snd (snd v)) self) (organize_visits vs)"

text \<open>
  What \<open>os.walk(self.extract_dir)\<close> yields. The loop body moves files out of the directory
  being visited and into the workspace, which is no part of the tree walked, so the
  directories are listed as they are when the walk starts.
\<close>

definition walk_of :: "node \<Rightarrow> path \<Rightarrow> visit list" where
  "walk_of t p = (case lookup t p of None \<Rightarrow> [] | Some n \<Rightarrow> os_walk p n)"

definition organize_files_and_identify_format :: "explorer \<Rightarrow> error + explorer" where
  "organize_files_and_identify_format self =
     and_then (os_makedirs (base_dir self @ [''annotations'']) (fs self)) (\<lambda>t.
       organize_visits (walk_of t (extract_dir self)) (self\<lparr>fs := t\<rparr>))"

subsection \<open>\<open>cleanup\<close> and \<open>explore_and_organize\<close>\<close>

fun remove_files :: "path \<Rightarrow> name list \<Rightarrow> node \<Rightarrow> error + node" where
  "remove_files dirpath [] t = Inr t"
| "remove_files dirpath (file # files) t =
     and_then (os_remove (dirpath @ [file]) t) (remove_files dirpath files)"

fun rmtree_dirs :: "path \<Rightarrow> name list \<Rightarrow> node \<Rightarrow> error + node" where
  "rmtree_dirs dirpath [] t = Inr t"
| "rmtree_dirs dirpath (dir # dirs) t =
     and_then (shutil_rmtree (dirpath @ [dir]) t) (rmtree_dirs dirpath dirs)"

fun cleanup_visits :: "visit list \<Rightarrow> node \<Rightarrow> error + node" where
  "cleanup_visits [] t = Inr t"
| "cleanup_visits (v # vs) t =
     and_then (remove_files (fst v) (snd (snd v)) t) (\<lambda>t1.
     and_then (rmtree_dirs (fst v) (fst (snd v)) t1) (cleanup_visits vs))"

text \<open>
  The bottom-up walk lists a directory before it descends, and the loop body deletes
  only below the directory it is given, so again the listing is that of the start.
\<close>

definition walk_bottomup_of :: "node \<Rightarrow> path \<Rightarrow> visit list" where
  "walk_bottomup_of t p = (case lookup t p of None \<Rightarrow> [] | Some n \<Rightarrow> os_walk_bottomup p n)"

definition cleanup :: "explorer \<Rightarrow> error + explorer" where
  "cleanup self =
     and_then (cleanup_visits (walk_bottomup_of (fs self) (extract_dir self)) (fs self)) (\<lambda>t.
     and_then (if os_path_exists t (extract_dir self) then os_rmdir (extract_dir self) t
               else Inr t) (\<lambda>t'.
     Inr (self\<lparr>fs := t'\<rparr>)))"

record results =
  dataset_name :: string
  annotation_format :: "string option"
  res_num_images :: int
  num_annotations_files :: int

definition explore_and_organize :: "error + archive \<Rightarrow> explorer \<Rightarrow> error + (results \<times> explorer)" where
  "explore_and_organize zf self =
     and_then (extract_zip zf self) (\<lambda>s1.
     and_then (organize_files_and_identify_format s1) (\<lambda>s2.
     and_then (cleanup s2) (\<lambda>s3.
     Inr (\<lparr>dataset_name = basename (zip_path s3),
           annotation_format = identified_format s3,
           res_num_images = num_images s3,
           num_annotations_files = num_annotations s3\<rparr>, s3))))"

text \<open>The module's last lines: construct the object, then run it.\<close>

definition run :: "string \<Rightarrow> error + archive \<Rightarrow> node \<Rightarrow> error + (results \<times> explorer)" where
  "run zp zf t = and_then (init zp t) (explore_and_organize zf)"


section \<open>Notions used to state the properties\<close>

subsection \<open>Tokens and lines of a text file\<close>

text \<open>The text \<open>open(p, 'r')\<close> reads from the file at \<open>p\<close>.\<close>

definition file_text :: "node \<Rightarrow> path \<Rightarrow> error + string" where
  "file_text t p = and_then (open_read t p) read_text"

text \<open>
  A token of digit characters with at most one full stop among them, and a line of five
  such tokens. \<open>digit_token\<close> takes the digits of \<open>str.isdigit\<close>, \<open>decimal_token\<close> the
  decimal digits only, which are the ones a number is written with.
\<close>

definition digit_token :: "string \<Rightarrow> bool" where
  "digit_token tok =
     (count_list tok CHR ''.'' \<le> 1 \<and> list_all (\<lambda>c. c = CHR ''.'' \<or> isdigit_char c) tok
      \<and> list_ex isdigit_char tok)"

definition digit_line :: "string \<Rightarrow> bool" where
  "digit_line line = (length (split line) = 5 \<and> list_all digit_token (split line))"

definition decimal_token :: "string \<Rightarrow> bool" where
  "decimal_token tok =
     (count_list tok CHR ''.'' \<le> 1 \<and> list_all (\<lambda>c. c = CHR ''.'' \<or> isdecimal_char c) tok
      \<and> list_ex isdecimal_char tok)"

definition decimal_line :: "string \<Rightarrow> bool" where
  "decimal_line line = (length (split line) = 5 \<and> list_all decimal_token (split line))"

subsection \<open>Documents\<close>

text \<open>
  The markup documents the specification has in mind: the file parses, the tag of the
  root is \<open>annotation\<close>, and a child of the root has the tag \<open>object\<close>.
\<close>

definition pascal_voc_document :: "content \<Rightarrow> bool" where
  "pascal_voc_document c =
     (case ET_parse c of
        Inl e \<Rightarrow> False
      | Inr el \<Rightarrow> tag el = ''annotation'' \<and> list_ex (\<lambda>ch. tag ch = ''object'') (children el))"

subsection \<open>Well-formed trees\<close>

text \<open>No directory lists a name twice, as no directory on disk does.\<close>

fun wf_node :: "node \<Rightarrow> bool" and wf_entries :: "(name \<times> node) list \<Rightarrow> bool" where
  "wf_node (File c) = True"
| "wf_node (Dir es) = (distinct (map fst es) \<and> wf_entries es)"
| "wf_entries [] = True"
| "wf_entries (e # es) = (wf_node (snd e) \<and> wf_entries es)"

subsection \<open>The walk and the files of a tree\<close>

text \<open>
  The files the loop visits, in order: each with the directory it is found in. And the
  files a tree holds, each by its path from the root of the tree.
\<close>

definition steps_of :: "visit list \<Rightarrow> (path \<times> name) list" where
  "steps_of vs = concat (map (\<lambda>v. map (Pair (fst v)) (snd (snd v))) vs)"

definition step_path :: "path \<times> name \<Rightarrow> path" where
  "step_path s = fst s @ [snd s]"

fun file_paths_in :: "node \<Rightarrow> path list"
  and file_paths_in_entries :: "(name \<times> node) list \<Rightarrow> path list" where
  "file_paths_in (File c) = [[]]"
| "file_paths_in (Dir es) = file_paths_in_entries es"
| "file_paths_in_entries [] = []"
| "file_paths_in_entries (e # es) =
     map ((#) (fst e)) (file_paths_in (snd e)) @ file_paths_in_entries es"

text \<open>The two loops of the method as one loop over the files visited.\<close>

fun organize_steps :: "(path \<times> name) list \<Rightarrow> explorer \<Rightarrow> error + explorer" where
  "organize_steps [] self = Inr self"
| "organize_steps (s # ss) self =
     and_then (organize_file (fst s) (snd s) self) (organize_steps ss)"

subsection \<open>Classification\<close>

text \<open>
  A name with an image extension, in any case. And the format literal that a file
  makes the loop body record: that of the sniffer its extension selects, when that
  sniffer answers \<open>True\<close>; none for an image and for a file no sniffer accepts.
\<close>

definition is_image_name :: "name \<Rightarrow> bool" where
  "is_image_name file = endswith_any (lower file) [''.png'', ''.jpg'', ''.jpeg'']"

definition detected :: "node \<Rightarrow> path \<Rightarrow> name \<Rightarrow> string option" where
  "detected t dirpath file =
     (if is_image_name file then None
      else if endswith file ''.xml''
      then (if is_pascal_voc t (dirpath @ [file]) = Inr True then Some ''Pascal VOC'' else None)
      else if endswith file ''.txt''
      then (if is_yolo t (dirpath @ [file]) = Inr True then Some ''YOLO'' else None)
      else if endswith file ''.json''
      then (if is_coco t (dirpath @ [file]) = Inr True then Some ''COCO'' else None)
      else None)"

definition formats :: "node \<Rightarrow> (path \<times> name) list \<Rightarrow> string list" where
  "formats t steps = List.map_filter (\<lambda>s. detected t (fst s) (snd s)) steps"

text \<open>
  The attributes as \<open>__init__\<close> sets them: the workspace and the scratch area are two
  different entries of the working directory.
\<close>

definition initialised :: "explorer \<Rightarrow> bool" where
  "initialised self =
     (extract_dir self = [''extracted_files'']
      \<and> (\<exists>b. b \<noteq> ''extracted_files'' \<and> base_dir self = [b]
               \<and> train_images_dir self = [b, ''train_images'']))"

subsection \<open>Concrete inputs\<close>

text \<open>A label file whose only line starts with a superscript two.\<close>

definition superscript_text :: string where
  "superscript_text = CHR 0xB2 # '' 0.5 0.5 0.2 0.2''"

definition superscript_fs :: node where
  "superscript_fs = Dir [(''labels.txt'',
     File \<lparr>read_text = Inr superscript_text, ET_parse = Inl ParseError,
           json_load = Inl JSONDecodeError\<rparr>)]"

text \<open>A file holding the number 5, and a file that does not decode as text.\<close>

definition number_json :: content where
  "number_json = \<lparr>read_text = Inr ''5'', ET_parse = Inl ParseError, json_load = Inr (JInt 5)\<rparr>"

definition binary_blob :: content where
  "binary_blob = \<lparr>read_text = Inl UnicodeDecodeError, ET_parse = Inl ParseError,
                  json_load = Inl UnicodeDecodeError\<rparr>"

text \<open>
  An archive with images, annotation files of the three formats, files that are none,
  files whose extension is in upper case, and two pictures of one name in two folders.
\<close>

definition voc_xml :: content where
  "voc_xml = \<lparr>read_text = Inr ''<annotation><filename/><object/></annotation>'',
              ET_parse = Inr (Element ''annotation'' [Element ''filename'' [], Element ''object'' []]),
              json_load = Inl JSONDecodeError\<rparr>"

definition meta_xml :: content where
  "meta_xml = \<lparr>read_text = Inr ''<annotation><filename/></annotation>'',
               ET_parse = Inr (Element ''annotation'' [Element ''filename'' []]),
               json_load = Inl JSONDecodeError\<rparr>"

definition yolo_txt :: content where
  "yolo_txt = \<lparr>read_text = Inr ''0 0.5 0.5 0.2 0.2'', ET_parse = Inl ParseError,
               json_load = Inl JSONDecodeError\<rparr>"

definition notes_txt :: content where
  "notes_txt = \<lparr>read_text = Inr ''no labels here'', ET_parse = Inl ParseError,
                json_load = Inl JSONDecodeError\<rparr>"

definition coco_json :: content where
  "coco_json = \<lparr>read_text = Inr ''{}'', ET_parse = Inl ParseError,
     json_load = Inr (JDict [(''images'', JList []), (''annotations'', JList []),
                             (''categories'', JList [])])\<rparr>"

definition image_a :: content where
  "image_a = \<lparr>read_text = Inr ''first picture'', ET_parse = Inl ParseError,
              json_load = Inl JSONDecodeError\<rparr>"

definition image_b :: content where
  "image_b = \<lparr>read_text = Inr ''second picture'', ET_parse = Inl ParseError,
              json_load = Inl JSONDecodeError\<rparr>"

definition archive0 :: archive where
  "archive0 =
     [([''img1.jpg''], ZFile binary_blob), ([''IMG.PNG''], ZFile image_a),
      ([''meta.xml''], ZFile meta_xml), ([''ANN.XML''], ZFile voc_xml),
      ([''DATA.JSON''], ZFile coco_json), ([''LABELS.TXT''], ZFile yolo_txt),
      ([''notes.txt''], ZFile notes_txt), ([''ann1.xml''], ZFile voc_xml),
      ([''data.json''], ZFile coco_json), ([''labels.txt''], ZFile yolo_txt),
      ([''a''], ZDir), ([''a'', ''img.png''], ZFile image_a),
      ([''b'', ''img.png''], ZFile image_b), ([''b'', ''deep'', ''x.jpeg''], ZFile binary_blob)]"

text \<open>The state after \<open>__init__\<close> and \<open>extract_zip\<close> on that archive, in an empty directory.\<close>

definition scratch0 :: node where
  "scratch0 =
     Dir [(''img1.jpg'', File binary_blob), (''IMG.PNG'', File image_a),
          (''meta.xml'', File meta_xml), (''ANN.XML'', File voc_xml),
          (''DATA.JSON'', File coco_json), (''LABELS.TXT'', File yolo_txt),
          (''notes.txt'', File notes_txt), (''ann1.xml'', File voc_xml),
          (''data.json'', File coco_json), (''labels.txt'', File yolo_txt),
          (''a'', Dir [(''img.png'', File image_a)]),
          (''b'', Dir [(''img.png'', File image_b),
                       (''deep'', Dir [(''x.jpeg'', File binary_blob)])])]"

definition workspace0 :: node where
  "workspace0 =
     Dir [(''train_images'', Dir []), (''validation_images'', Dir []),
          (''cocos'', Dir [(''val_coco.json'', File coco_file_content),
                           (''test_coco.json'', File coco_file_content)])]"

definition self0 :: explorer where
  "self0 =
     \<lparr>zip_path = ''sets/d.zip'', base_dir = [''converted_d.zip''],
      train_images_dir = [''converted_d.zip'', ''train_images''],
      cocos_dir = [''converted_d.zip'', ''cocos''],
      extract_dir = [''extracted_files''],
      identified_format = None, num_images = 0, num_annotations = 0,
      fs = Dir [(''converted_d.zip'', workspace0), (''extracted_files'', scratch0)]\<rparr>"

section \<open>Properties\<close>

subsection \<open>Sequencing\<close>

lemma and_then_Inl [simp]: "and_then (Inl e) f = Inl e"
  by (simp add: and_then_def)

lemma and_then_Inr [simp]: "and_then (Inr x) f = f x"
  by (simp add: and_then_def)

lemma and_then_eq_Inr: "and_then m f = Inr y \<longleftrightarrow> (\<exists>x. m = Inr x \<and> f x = Inr y)"
  by (cases m) auto

subsection \<open>Splitting a line into tokens\<close>

lemma split_from_spaces:
  "list_all isspace_char ws \<Longrightarrow> split_from cur ws = (if cur = [] then [] else [rev cur])"
  by (induction ws arbitrary: cur) auto

lemma split_from_append_spaces:
  "list_all isspace_char ws \<Longrightarrow> split_from cur (s @ ws) = split_from cur s"
  by (induction s arbitrary: cur) (auto simp: split_from_spaces)

lemma split_from_dropWhile: "split_from [] (dropWhile isspace_char s) = split_from [] s"
  by (induction s) auto

lemma rstrip_decomp: "rev (dropWhile P (rev s)) @ rev (takeWhile P (rev s)) = s"
  by (metis rev_append rev_rev_ident takeWhile_dropWhile_id)

text \<open>Stripping a line before splitting it changes nothing.\<close>

lemma split_strip: "split (strip s) = split s"
proof -
  let ?l = "dropWhile isspace_char s"
  have ws: "list_all isspace_char (rev (takeWhile isspace_char (rev ?l)))"
    by (simp add: list_all_iff) (metis set_takeWhileD)
  have "split_from [] (strip s) = split_from [] (strip s @ rev (takeWhile isspace_char (rev ?l)))"
    using split_from_append_spaces [OF ws] by simp
  also have "strip s @ rev (takeWhile isspace_char (rev ?l)) = ?l"
    unfolding strip_def by (rule rstrip_decomp)
  finally show ?thesis by (simp add: split_def split_from_dropWhile)
qed

subsection \<open>The token test of \<open>_is_yolo\<close>\<close>

lemma dot_not_digit: "\<not> isdigit_char CHR ''.''"
  by (simp add: isdigit_char_def isdecimal_char_def)

lemma all_digits_iff:
  "list_all isdigit_char tok \<longleftrightarrow>
     count_list tok CHR ''.'' = 0 \<and> list_all (\<lambda>c. c = CHR ''.'' \<or> isdigit_char c) tok"
  by (induction tok) (simp_all add: dot_not_digit, blast)

lemma all_digits_replace_dot_once:
  "list_all isdigit_char (replace_dot_once tok) \<longleftrightarrow>
     count_list tok CHR ''.'' \<le> 1 \<and> list_all (\<lambda>c. c = CHR ''.'' \<or> isdigit_char c) tok"
proof (induction tok)
  case Nil
  then show ?case by simp
next
  case (Cons c tok)
  show ?case
  proof (cases "c = CHR ''.''")
    case True
    then show ?thesis using all_digits_iff [of tok] by simp
  next
    case False
    then show ?thesis using Cons by auto
  qed
qed

lemma set_replace_dot_once_subset: "set (replace_dot_once tok) \<subseteq> set tok"
  by (induction tok) auto

lemma set_replace_dot_once_supset:
  "c \<in> set tok \<Longrightarrow> c \<noteq> CHR ''.'' \<Longrightarrow> c \<in> set (replace_dot_once tok)"
  by (induction tok) auto

lemma isdigit_replace_dot_once: "isdigit (replace_dot_once tok) \<longleftrightarrow> digit_token tok"
proof -
  have "replace_dot_once tok \<noteq> [] \<longleftrightarrow> list_ex isdigit_char tok"
    if "list_all isdigit_char (replace_dot_once tok)"
  proof
    assume "replace_dot_once tok \<noteq> []"
    then obtain c where c: "c \<in> set (replace_dot_once tok)"
      by (cases "replace_dot_once tok") auto
    with that have "isdigit_char c" by (simp add: list_all_iff)
    moreover from c have "c \<in> set tok" using set_replace_dot_once_subset by blast
    ultimately show "list_ex isdigit_char tok" by (auto simp: list_ex_iff)
  next
    assume "list_ex isdigit_char tok"
    then obtain c where "c \<in> set tok" "isdigit_char c" by (auto simp: list_ex_iff)
    then have "c \<in> set (replace_dot_once tok)"
      using set_replace_dot_once_supset dot_not_digit by metis
    then show "replace_dot_once tok \<noteq> []" by auto
  qed
  then show ?thesis
    unfolding isdigit_def digit_token_def using all_digits_replace_dot_once [of tok] by blast
qed

lemma yolo_lines_iff: "yolo_lines ls = list_ex digit_line ls"
  by (induction ls) (auto simp: digit_line_def split_strip isdigit_replace_dot_once Let_def)

text \<open>
  What \<open>_is_yolo\<close> computes. It never raises. It answers \<open>True\<close> exactly when the
  file can be read as text and one of its lines splits on whitespace into five tokens,
  each made of characters that \<open>str.isdigit\<close> accepts, at least one of them, with at
  most one full stop. One such line is enough, whatever the other lines hold. The
  characters are the code points up to U+00FF.
\<close>

lemma is_yolo_digit_lines:
  "is_yolo t p =
     Inr (case file_text t p of Inl e \<Rightarrow> False | Inr text \<Rightarrow> list_ex digit_line (readlines text))"
  by (cases "file_text t p")
     (simp_all add: is_yolo_def file_text_def try_except_def yolo_lines_iff)

text \<open>
  C5. The token test \<open>part.replace('.', '', 1).isdigit()\<close> is meant to accept the
  non-negative decimal numbers, and \<open>str.isdigit\<close> accepts more than the decimal
  digits: the superscript two is a digit for it. So the file below, whose only line
  starts with a token that is no number, is taken for a label file: \<open>_is_yolo\<close>
  answers \<open>True\<close> although no line of the file has five tokens that are decimal numbers.
\<close>

theorem is_yolo_accepts_superscript:
  "is_yolo superscript_fs [''labels.txt''] = Inr True
   \<and> file_text superscript_fs [''labels.txt''] = Inr superscript_text
   \<and> \<not> list_ex decimal_line (readlines superscript_text)"
  by code_simp

subsection \<open>The sniffer \<open>_is_pascal_voc\<close> and the dispatch on extensions\<close>

lemma find_child_iff: "(\<exists>y. find_child el t = Some y) \<longleftrightarrow> list_ex (\<lambda>ch. tag ch = t) (children el)"
  using find_None_iff [of "\<lambda>ch. tag ch = t" "children el"]
  by (auto simp: find_child_def list_ex_iff)

lemma open_read_File: "lookup t p = Some (File c) \<Longrightarrow> open_read t p = Inr c"
  by (simp add: open_read_def)

lemma open_read_eq_Inr: "open_read t p = Inr c \<longleftrightarrow> lookup t p = Some (File c)"
  by (auto simp: open_read_def split: option.splits node.splits)

lemma is_pascal_voc_File:
  "lookup t p = Some (File c) \<Longrightarrow>
   is_pascal_voc t p =
     (case ET_parse c of
        Inl e \<Rightarrow> if e = ParseError then Inr False else Inl e
      | Inr el \<Rightarrow> Inr (pascal_voc_document c))"
  by (cases "ET_parse c")
     (simp_all add: is_pascal_voc_def open_read_File try_except_def pascal_voc_document_def
        find_child_iff)

lemma is_pascal_voc_True_iff:
  "is_pascal_voc t p = Inr True \<longleftrightarrow> (\<exists>c. lookup t p = Some (File c) \<and> pascal_voc_document c)"
proof (cases "open_read t p")
  case (Inl e)
  then have "\<nexists>c. lookup t p = Some (File c)" by (auto simp: open_read_File)
  with Inl show ?thesis by (auto simp: is_pascal_voc_def try_except_def)
next
  case (Inr c)
  then have l: "lookup t p = Some (File c)" by (simp add: open_read_eq_Inr)
  show ?thesis using is_pascal_voc_File [OF l] l
    by (cases "ET_parse c") (auto simp: pascal_voc_document_def)
qed

lemma lower_suffix: "endswith s e \<Longrightarrow> endswith (lower s) (lower e)"
  by (simp add: endswith_def lower_def map_mono_suffix)

lemma endswith_last: "endswith s a \<Longrightarrow> endswith s b \<Longrightarrow> a \<noteq> [] \<Longrightarrow> b \<noteq> [] \<Longrightarrow> last a = last b"
  unfolding endswith_def suffix_def by (metis last_appendR)

lemma lower_xml: "lower ''.xml'' = ''.xml''" by code_simp
lemma lower_txt: "lower ''.txt'' = ''.txt''" by code_simp
lemma lower_json: "lower ''.json'' = ''.json''" by code_simp

lemma not_image_if_last:
  assumes "endswith (lower file) e" "e \<noteq> []" "last e \<noteq> CHR ''g''"
  shows "\<not> endswith_any (lower file) [''.png'', ''.jpg'', ''.jpeg'']"
proof
  assume "endswith_any (lower file) [''.png'', ''.jpg'', ''.jpeg'']"
  then obtain i where "i \<in> {''.png'', ''.jpg'', ''.jpeg''}" "endswith (lower file) i"
    by (auto simp: endswith_any_def)
  then have "last e = last i" "last i = CHR ''g''"
    using endswith_last [OF assms(1) _ assms(2)] by auto
  with assms(3) show False by simp
qed

lemma xml_not_image: "endswith file ''.xml'' \<Longrightarrow> \<not> endswith_any (lower file) [''.png'', ''.jpg'', ''.jpeg'']"
  using lower_suffix [of "file" "''.xml''"] not_image_if_last [of "file" "''.xml''"]
  by (simp add: lower_xml)

lemma organize_file_xml:
  "endswith file ''.xml'' \<Longrightarrow>
   organize_file dirpath file self =
     and_then (is_pascal_voc (fs self) (dirpath @ [file])) (\<lambda>b.
       if b
       then and_then (move_file (dirpath @ [file]) ((base_dir self @ [''annotations'']) @ [''xml'']) (fs self))
              (\<lambda>t. Inr (self\<lparr>fs := t, identified_format := Some ''Pascal VOC'',
                              num_annotations := num_annotations self + 1\<rparr>))
       else Inr self)"
  using xml_not_image [of "file"] by (simp add: organize_file_def Let_def)

text \<open>
  C4. \<open>_is_pascal_voc\<close> answers \<open>True\<close> exactly for a file that parses, whose root has
  the tag \<open>annotation\<close> and a child with the tag \<open>object\<close>. A file named \<open>*.xml\<close> that
  is no such document is left where it is and nothing is counted: the loop body returns
  the state unchanged, or, if the parser fails with another error than \<open>ParseError\<close>,
  passes that error on, which returns no new state.
\<close>

theorem pascal_voc_sniffer:
  "(is_pascal_voc t p = Inr True \<longleftrightarrow> (\<exists>c. lookup t p = Some (File c) \<and> pascal_voc_document c))
   \<and> (endswith file ''.xml'' \<and> lookup (fs self) (dirpath @ [file]) = Some (File c)
        \<and> \<not> pascal_voc_document c \<longrightarrow>
      organize_file dirpath file self = Inr self
      \<or> (\<exists>e. e \<noteq> ParseError \<and> ET_parse c = Inl e \<and> organize_file dirpath file self = Inl e))"
proof (intro conjI impI)
  show "is_pascal_voc t p = Inr True \<longleftrightarrow> (\<exists>c. lookup t p = Some (File c) \<and> pascal_voc_document c)"
    by (rule is_pascal_voc_True_iff)
next
  assume a: "endswith file ''.xml'' \<and> lookup (fs self) (dirpath @ [file]) = Some (File c)
        \<and> \<not> pascal_voc_document c"
  then show "organize_file dirpath file self = Inr self
      \<or> (\<exists>e. e \<noteq> ParseError \<and> ET_parse c = Inl e \<and> organize_file dirpath file self = Inl e)"
    using is_pascal_voc_File [of "fs self" "dirpath @ [file]" c]
    by (cases "ET_parse c") (auto simp: organize_file_xml)
qed

text \<open>
  C2 fails for \<open>_is_coco\<close>, which catches \<open>JSONDecodeError\<close> only: on a file holding
  the number 5 the membership test raises \<open>TypeError\<close>, on a file that does not decode
  \<open>json.load\<close> raises \<open>UnicodeDecodeError\<close>, and the whole run ends with the error.
\<close>

theorem is_coco_raises:
  "is_coco (Dir [(''data.json'', File number_json)]) [''data.json''] = Inl TypeError
   \<and> is_coco (Dir [(''data.json'', File binary_blob)]) [''data.json''] = Inl UnicodeDecodeError
   \<and> run ''data.zip'' (Inr [([''data.json''], ZFile number_json)]) (Dir []) = Inl TypeError"
  by code_simp

subsection \<open>Looking up after a modification\<close>

lemma lookup_File: "lookup (File c) p = (if p = [] then Some (File c) else None)"
  by (cases p) auto

lemma lookup_append:
  "lookup t (p @ q) = (case lookup t p of None \<Rightarrow> None | Some n \<Rightarrow> lookup n q)"
proof (induction p arbitrary: t)
  case Nil
  then show ?case by simp
next
  case (Cons x p)
  then show ?case by (cases t) (auto split: option.splits)
qed

lemma lookup_modify_ext:
  "lookup (modify p f t) (p @ q) = (case lookup t p of None \<Rightarrow> None | Some n \<Rightarrow> lookup (f n) q)"
proof (induction p arbitrary: t)
  case Nil
  then show ?case by simp
next
  case (Cons x p)
  then show ?case by (cases t) (auto simp: update_conv' split: option.splits)
qed

lemma lookup_modify_same: "lookup (modify p f t) p = map_option f (lookup t p)"
  using lookup_modify_ext [of p f t "[]"] by (auto split: option.splits)

lemma lookup_modify_parallel: "p \<parallel> q \<Longrightarrow> lookup (modify p f t) q = lookup t q"
proof (induction p arbitrary: t q)
  case Nil
  then show ?case by simp
next
  case (Cons x p)
  then obtain y q' where q: "q = y # q'" by (cases q) auto
  show ?case
  proof (cases t)
    case (File c)
    then show ?thesis by simp
  next
    case (Dir es)
    show ?thesis
    proof (cases "y = x")
      case True
      with Cons.prems q have "p \<parallel> q'" by (auto simp: parallel_def)
      with Cons.IH Dir q True show ?thesis by (auto simp: update_conv' split: option.splits)
    next
      case False
      with Dir q show ?thesis by (auto simp: update_conv' split: option.splits)
    qed
  qed
qed

lemma lookup_modify_ancestor:
  "lookup (modify (q @ r) f t) q = map_option (modify r f) (lookup t q)"
proof (induction q arbitrary: t)
  case Nil
  then show ?case by simp
next
  case (Cons x q)
  then show ?case by (cases t) (auto simp: update_conv' split: option.splits)
qed

lemma modify_Cons_is_dir: "is_dir (modify (x # r) f n) = is_dir n"
  by (cases n) (auto split: option.splits)

lemma modify_Cons_File: "modify (x # r) f n = File c \<longleftrightarrow> n = File c"
  by (cases n) (auto split: option.splits)

lemma put_snoc: "put (d @ [x]) n t = modify d (set_entry x n) t"
  by (simp add: put_def)

lemma del_snoc: "del (d @ [x]) t = modify d (remove_entry x) t"
  by (simp add: del_def)

lemma lookup_set_entry:
  "lookup (set_entry x n m) (y # r) =
     (if y = x \<and> is_dir m then lookup n r else lookup m (y # r))"
  by (cases m) (auto simp: set_entry_def update_conv' split: option.splits)

lemma lookup_remove_entry:
  "lookup (remove_entry x m) (y # r) = (if y = x then None else lookup m (y # r))"
  by (cases m) (auto simp: remove_entry_def delete_conv' split: option.splits)

lemma is_dir_set_entry [simp]: "is_dir (set_entry x n m) = is_dir m"
  by (cases m) (auto simp: set_entry_def)

lemma is_dir_remove_entry [simp]: "is_dir (remove_entry x m) = is_dir m"
  by (cases m) (auto simp: remove_entry_def)

lemma set_entry_File [simp]: "set_entry x n m = File c \<longleftrightarrow> m = File c"
  by (cases m) (auto simp: set_entry_def)

lemma remove_entry_File [simp]: "remove_entry x m = File c \<longleftrightarrow> m = File c"
  by (cases m) (auto simp: remove_entry_def)

lemma lookup_not_dir: "\<not> is_dir m \<Longrightarrow> lookup m (y # r) = None"
  by (cases m) auto

lemma os_path_isdir_iff: "os_path_isdir t p \<longleftrightarrow> (\<exists>n. lookup t p = Some n \<and> is_dir n)"
  by (auto simp: os_path_isdir_def split: option.splits node.splits)

lemma is_dir_iff: "is_dir n \<longleftrightarrow> (\<exists>es. n = Dir es)"
  by (cases n) auto

lemma parallel_or_below:
  assumes "\<not> prefix q (d @ [x])" "\<not> prefix (d @ [x]) q"
  shows "d \<parallel> q \<or> (\<exists>y r. q = d @ y # r \<and> y \<noteq> x)"
proof (cases "prefix d q")
  case True
  then obtain r where q: "q = d @ r" by (auto simp: prefix_def)
  with assms(1) have "r \<noteq> []" by auto
  then obtain y r' where r: "r = y # r'" by (cases r) auto
  with q assms(2) have "y \<noteq> x" by auto
  with q r show ?thesis by auto
next
  case False
  moreover have "\<not> prefix q d" using assms(1) by (auto simp: prefix_def)
  ultimately show ?thesis by (auto simp: parallel_def)
qed

lemma lookup_put_other:
  assumes "\<not> prefix q p" "\<not> prefix p q"
  shows "lookup (put p n t) q = lookup t q"
proof (cases "p = []")
  case True
  with assms show ?thesis by simp
next
  case False
  then obtain d x where p: "p = d @ [x]" by (metis append_butlast_last_id)
  from parallel_or_below [of q d x] assms p
  consider "d \<parallel> q" | y r where "q = d @ y # r" "y \<noteq> x" by auto
  then show ?thesis
  proof cases
    case 1
    then show ?thesis by (simp add: p put_snoc lookup_modify_parallel)
  next
    case 2
    then show ?thesis
      by (simp add: p put_snoc lookup_modify_ext lookup_set_entry split: option.splits)
         (simp add: lookup_append)
  qed
qed

lemma lookup_del_other:
  assumes "\<not> prefix q p" "\<not> prefix p q"
  shows "lookup (del p t) q = lookup t q"
proof (cases "p = []")
  case True
  with assms show ?thesis by simp
next
  case False
  then obtain d x where p: "p = d @ [x]" by (metis append_butlast_last_id)
  from parallel_or_below [of q d x] assms p
  consider "d \<parallel> q" | y r where "q = d @ y # r" "y \<noteq> x" by auto
  then show ?thesis
  proof cases
    case 1
    then show ?thesis by (simp add: p del_snoc lookup_modify_parallel)
  next
    case 2
    then show ?thesis
      by (simp add: p del_snoc lookup_modify_ext lookup_remove_entry split: option.splits)
         (simp add: lookup_append)
  qed
qed

lemma lookup_put_below:
  "p \<noteq> [] \<Longrightarrow>
   lookup (put p n t) (p @ r) = (if os_path_isdir t (butlast p) then lookup n r else None)"
proof -
  assume "p \<noteq> []"
  then obtain d x where p: "p = d @ [x]" by (metis append_butlast_last_id)
  show ?thesis
    by (auto simp: p put_snoc lookup_modify_ext lookup_set_entry os_path_isdir_iff
        lookup_not_dir split: option.splits)
qed

lemma lookup_put_self:
  "p \<noteq> [] \<Longrightarrow> lookup (put p n t) p = (if os_path_isdir t (butlast p) then Some n else None)"
  using lookup_put_below [of p n t "[]"] by simp

lemma lookup_del_below: "p \<noteq> [] \<Longrightarrow> lookup (del p t) (p @ r) = None"
proof -
  assume "p \<noteq> []"
  then obtain d x where p: "p = d @ [x]" by (metis append_butlast_last_id)
  show ?thesis
    by (auto simp: p del_snoc lookup_modify_ext lookup_remove_entry split: option.splits)
qed

lemma lookup_del_self: "p \<noteq> [] \<Longrightarrow> lookup (del p t) p = None"
  using lookup_del_below [of p t "[]"] by simp

text \<open>Above the path that is bound or removed, directories stay directories and files files.\<close>

lemma lookup_modify_above:
  assumes "prefix q d" "\<And>m. is_dir (f m) = is_dir m" "\<And>m c. f m = File c \<longleftrightarrow> m = File c"
  shows "(\<exists>n. lookup (modify d f t) q = Some n \<and> is_dir n) \<longleftrightarrow> (\<exists>n. lookup t q = Some n \<and> is_dir n)"
    and "lookup (modify d f t) q = Some (File c) \<longleftrightarrow> lookup t q = Some (File c)"
    and "lookup (modify d f t) q = None \<longleftrightarrow> lookup t q = None"
proof -
  from assms(1) obtain r where d: "d = q @ r" by (auto simp: prefix_def)
  have k: "is_dir (modify r f m) = is_dir m" for m
    by (cases r) (simp_all add: assms(2) modify_Cons_is_dir)
  have fl: "modify r f m = File c \<longleftrightarrow> m = File c" for m
    by (cases r) (simp_all add: assms(3) modify_Cons_File)
  show "(\<exists>n. lookup (modify d f t) q = Some n \<and> is_dir n) \<longleftrightarrow> (\<exists>n. lookup t q = Some n \<and> is_dir n)"
    by (auto simp: d lookup_modify_ancestor k)
  show "lookup (modify d f t) q = Some (File c) \<longleftrightarrow> lookup t q = Some (File c)"
    by (auto simp: d lookup_modify_ancestor fl)
  show "lookup (modify d f t) q = None \<longleftrightarrow> lookup t q = None"
    by (auto simp: d lookup_modify_ancestor)
qed

lemma isdir_put_above:
  "strict_prefix q p \<Longrightarrow> os_path_isdir (put p n t) q = os_path_isdir t q"
proof -
  assume a: "strict_prefix q p"
  then have "p \<noteq> []" by auto
  then obtain d x where p: "p = d @ [x]" by (metis append_butlast_last_id)
  with a have "prefix q d" by (auto simp: strict_prefix_def)
  then show ?thesis
    using lookup_modify_above(1) [of q d "set_entry x n" t]
    by (simp add: p put_snoc os_path_isdir_iff)
qed

lemma isdir_del_above:
  "strict_prefix q p \<Longrightarrow> os_path_isdir (del p t) q = os_path_isdir t q"
proof -
  assume a: "strict_prefix q p"
  then have "p \<noteq> []" by auto
  then obtain d x where p: "p = d @ [x]" by (metis append_butlast_last_id)
  with a have "prefix q d" by (auto simp: strict_prefix_def)
  then show ?thesis
    using lookup_modify_above(1) [of q d "remove_entry x" t]
    by (simp add: p del_snoc os_path_isdir_iff)
qed

text \<open>The listing of the parent directory.\<close>

lemma lookup_put_parent:
  "lookup t d = Some (Dir es) \<Longrightarrow>
   lookup (put (d @ [x]) n t) d = Some (Dir (AList.update x n es))"
  by (simp add: put_snoc lookup_modify_same set_entry_def)

lemma lookup_del_parent:
  "lookup t d = Some (Dir es) \<Longrightarrow>
   lookup (del (d @ [x]) t) d = Some (Dir (AList.delete x es))"
  by (simp add: del_snoc lookup_modify_same remove_entry_def)

subsection \<open>\<open>os.makedirs\<close>, \<open>os.rename\<close> and \<open>shutil.move\<close>\<close>

lemma os_makedirs_isdir:
  "os_makedirs p t = Inr t' \<Longrightarrow> prefix q p \<Longrightarrow> os_path_isdir t' q"
proof (induction p arbitrary: t t' q)
  case Nil
  then show ?case by (cases t) (auto simp: os_path_isdir_def)
next
  case (Cons x p)
  from Cons.prems(1) obtain es where t: "t = Dir es" by (cases t) auto
  with Cons.prems(1) obtain n' where
    n': "os_makedirs p (case map_of es x of None \<Rightarrow> Dir [] | Some n \<Rightarrow> n) = Inr n'"
    and t': "t' = Dir (AList.update x n' es)"
    by (auto simp: and_then_eq_Inr)
  show ?case
  proof (cases q)
    case Nil
    with t' show ?thesis by (simp add: os_path_isdir_def)
  next
    case (Cons y q')
    with Cons.prems(2) have "y = x" "prefix q' p" by auto
    with Cons.IH [OF n'] have "os_path_isdir n' q'" by simp
    with Cons t' \<open>y = x\<close> show ?thesis by (simp add: os_path_isdir_def update_conv')
  qed
qed

lemma os_makedirs_other:
  "os_makedirs p t = Inr t' \<Longrightarrow> \<not> prefix q p \<Longrightarrow> lookup t' q = lookup t q"
proof (induction p arbitrary: t t' q)
  case Nil
  then show ?case by (cases t) auto
next
  case (Cons x p)
  from Cons.prems(1) obtain es where t: "t = Dir es" by (cases t) auto
  let ?n0 = "case map_of es x of None \<Rightarrow> Dir [] | Some n \<Rightarrow> n"
  from t Cons.prems(1) obtain n' where
    n': "os_makedirs p ?n0 = Inr n'" and t': "t' = Dir (AList.update x n' es)"
    by (auto simp: and_then_eq_Inr)
  from Cons.prems(2) obtain y q' where q: "q = y # q'" by (cases q) auto
  show ?case
  proof (cases "y = x")
    case True
    with Cons.prems(2) q have np: "\<not> prefix q' p" by auto
    then have "q' \<noteq> []" by auto
    from Cons.IH [OF n' np] have "lookup n' q' = lookup ?n0 q'" .
    with t t' q True \<open>q' \<noteq> []\<close> show ?thesis
      by (cases q') (auto simp: update_conv' split: option.splits)
  next
    case False
    with t t' q show ?thesis by (simp add: update_conv')
  qed
qed

lemma os_makedirs_existing: "os_path_isdir t p \<Longrightarrow> os_makedirs p t = Inr t"
proof (induction p arbitrary: t)
  case Nil
  then show ?case by (cases t) (auto simp: os_path_isdir_def)
next
  case (Cons x p)
  then obtain es where t: "t = Dir es" by (cases t) (auto simp: os_path_isdir_def)
  with Cons.prems obtain n where n: "map_of es x = Some n" "os_path_isdir n p"
    by (auto simp: os_path_isdir_def split: option.splits)
  with Cons.IH have "os_makedirs p n = Inr n" by simp
  with t n show ?case by (simp add: update_triv)
qed

lemma os_rename_eq_Inr:
  "os_rename src dst t = Inr t' \<longleftrightarrow>
     (\<exists>c. lookup t src = Some (File c) \<and> os_path_isdir t (butlast dst)
        \<and> \<not> os_path_isdir t dst \<and> t' = put dst (File c) (del src t))"
  by (auto simp: os_rename_def os_path_isdir_def split: option.splits node.splits)

lemma shutil_move_eq_Inr:
  "shutil_move src dst t = Inr t' \<longleftrightarrow>
     (\<exists>c. lookup t src = Some (File c)
        \<and> (if os_path_isdir t dst
            then lookup t (dst @ [last src]) = None
                 \<and> t' = put (dst @ [last src]) (File c) (del src t)
            else os_path_isdir t (butlast dst) \<and> t' = put dst (File c) (del src t)))"
  by (auto simp: shutil_move_def os_rename_eq_Inr os_path_exists_def Let_def os_path_isdir_def)

subsection \<open>Deleting the entries of a directory\<close>

lemma wf_entries_iff: "wf_entries es \<longleftrightarrow> (\<forall>e \<in> set es. wf_node (snd e))"
  by (induction es) auto

lemma map_of_distinct: "distinct (map fst es) \<Longrightarrow> (n, m) \<in> set es \<Longrightarrow> map_of es n = Some m"
  by simp

lemma lookup_snoc:
  "lookup t (p @ [x]) =
     (case lookup t p of Some (Dir es) \<Rightarrow> map_of es x | _ \<Rightarrow> None)"
  by (auto simp: lookup_append split: option.splits node.splits)

lemma cleanup_visits_append:
  "cleanup_visits (xs @ ys) t = and_then (cleanup_visits xs t) (cleanup_visits ys)"
proof (induction xs arbitrary: t)
  case Nil
  then show ?case by simp
next
  case (Cons v xs)
  show ?case
  proof (cases "remove_files (fst v) (snd (snd v)) t")
    case (Inl e)
    then show ?thesis by simp
  next
    case (Inr t1)
    then show ?thesis using Cons by (cases "rmtree_dirs (fst v) (fst (snd v)) t1") simp_all
  qed
qed

text \<open>Removing the files, then the subdirectories, of a directory.\<close>

lemma remove_files_ok:
  assumes "distinct names" "\<forall>f \<in> set names. \<exists>c. lookup t (p @ [f]) = Some (File c)"
  shows "\<exists>t'. remove_files p names t = Inr t'
           \<and> (\<forall>f \<in> set names. lookup t' (p @ [f]) = None)
           \<and> (\<forall>q. (\<forall>f \<in> set names. \<not> prefix (p @ [f]) q) \<and> \<not> prefix q p \<longrightarrow> lookup t' q = lookup t q)
           \<and> (\<forall>q. prefix q p \<longrightarrow> os_path_isdir t' q = os_path_isdir t q)"
  using assms
proof (induction names arbitrary: t)
  case Nil
  then show ?case by simp
next
  case (Cons f names)
  from Cons.prems obtain c where c: "lookup t (p @ [f]) = Some (File c)" by auto
  let ?t1 = "del (p @ [f]) t"
  have r: "os_remove (p @ [f]) t = Inr ?t1" using c by (simp add: os_remove_def)
  have other: "lookup ?t1 q = lookup t q" if "\<not> prefix (p @ [f]) q" "\<not> prefix q p" for q
  proof -
    have "\<not> prefix q (p @ [f])" using that by (auto simp: prefix_snoc)
    with that show ?thesis by (simp add: lookup_del_other)
  qed
  have "\<forall>g \<in> set names. \<exists>c. lookup ?t1 (p @ [g]) = Some (File c)"
  proof
    fix g assume g: "g \<in> set names"
    with Cons.prems(1) have "g \<noteq> f" by auto
    then have "lookup ?t1 (p @ [g]) = lookup t (p @ [g])" by (intro other) auto
    with Cons.prems(2) g show "\<exists>c. lookup ?t1 (p @ [g]) = Some (File c)" by simp
  qed
  with Cons.IH [of ?t1] Cons.prems(1) obtain t' where t':
    "remove_files p names ?t1 = Inr t'"
    "\<forall>f \<in> set names. lookup t' (p @ [f]) = None"
    "\<forall>q. (\<forall>f \<in> set names. \<not> prefix (p @ [f]) q) \<and> \<not> prefix q p \<longrightarrow> lookup t' q = lookup ?t1 q"
    "\<forall>q. prefix q p \<longrightarrow> os_path_isdir t' q = os_path_isdir ?t1 q"
    by auto
  have "lookup t' (p @ [f]) = None"
  proof -
    have "(\<forall>g \<in> set names. \<not> prefix (p @ [g]) (p @ [f])) \<and> \<not> prefix (p @ [f]) p"
      using Cons.prems(1) by auto
    then have "lookup t' (p @ [f]) = lookup ?t1 (p @ [f])"
      using t'(3) by blast
    then show ?thesis by (simp add: lookup_del_self)
  qed
  moreover have "os_path_isdir t' q = os_path_isdir t q" if "prefix q p" for q
  proof -
    from that have "strict_prefix q (p @ [f])" by (auto simp: strict_prefix_def prefix_def)
    then show ?thesis using t'(4) that by (simp add: isdir_del_above)
  qed
  ultimately show ?case using r t' other by auto
qed

lemma rmtree_dirs_ok:
  assumes "distinct names" "\<forall>d \<in> set names. os_path_isdir t (p @ [d])"
  shows "\<exists>t'. rmtree_dirs p names t = Inr t'
           \<and> (\<forall>d \<in> set names. lookup t' (p @ [d]) = None)
           \<and> (\<forall>q. (\<forall>d \<in> set names. \<not> prefix (p @ [d]) q) \<and> \<not> prefix q p \<longrightarrow> lookup t' q = lookup t q)
           \<and> (\<forall>q. prefix q p \<longrightarrow> os_path_isdir t' q = os_path_isdir t q)"
  using assms
proof (induction names arbitrary: t)
  case Nil
  then show ?case by simp
next
  case (Cons d names)
  from Cons.prems obtain es where es: "lookup t (p @ [d]) = Some (Dir es)"
    by (auto simp: os_path_isdir_iff is_dir_iff)
  let ?t1 = "del (p @ [d]) t"
  have r: "shutil_rmtree (p @ [d]) t = Inr ?t1" using es by (simp add: shutil_rmtree_def)
  have other: "lookup ?t1 q = lookup t q" if "\<not> prefix (p @ [d]) q" "\<not> prefix q p" for q
  proof -
    have "\<not> prefix q (p @ [d])" using that by (auto simp: prefix_snoc)
    with that show ?thesis by (simp add: lookup_del_other)
  qed
  have "\<forall>g \<in> set names. os_path_isdir ?t1 (p @ [g])"
  proof
    fix g assume g: "g \<in> set names"
    with Cons.prems(1) have "g \<noteq> d" by auto
    then have "lookup ?t1 (p @ [g]) = lookup t (p @ [g])" by (intro other) auto
    with Cons.prems(2) g show "os_path_isdir ?t1 (p @ [g])" by (simp add: os_path_isdir_def)
  qed
  with Cons.IH [of ?t1] Cons.prems(1) obtain t' where t':
    "rmtree_dirs p names ?t1 = Inr t'"
    "\<forall>d \<in> set names. lookup t' (p @ [d]) = None"
    "\<forall>q. (\<forall>d \<in> set names. \<not> prefix (p @ [d]) q) \<and> \<not> prefix q p \<longrightarrow> lookup t' q = lookup ?t1 q"
    "\<forall>q. prefix q p \<longrightarrow> os_path_isdir t' q = os_path_isdir ?t1 q"
    by auto
  have "lookup t' (p @ [d]) = None"
  proof -
    have "(\<forall>g \<in> set names. \<not> prefix (p @ [g]) (p @ [d])) \<and> \<not> prefix (p @ [d]) p"
      using Cons.prems(1) by auto
    then have "lookup t' (p @ [d]) = lookup ?t1 (p @ [d])"
      using t'(3) by blast
    then show ?thesis by (simp add: lookup_del_self)
  qed
  moreover have "os_path_isdir t' q = os_path_isdir t q" if "prefix q p" for q
  proof -
    from that have "strict_prefix q (p @ [d])" by (auto simp: strict_prefix_def prefix_def)
    then show ?thesis using t'(4) that by (simp add: isdir_del_above)
  qed
  ultimately show ?case using r t' other by auto
qed

subsection \<open>The example archive\<close>

lemma init_extract_example:
  "and_then (init ''sets/d.zip'' (Dir [])) (extract_zip (Inr archive0)) = Inr self0"
  by code_simp

text \<open>C4 on the example: \<open>ann1.xml\<close> is recognised, \<open>meta.xml\<close> stays where it is.\<close>

theorem pascal_voc_sniffer_witness:
  "is_pascal_voc (fs self0) [''extracted_files'', ''ann1.xml''] = Inr True
   \<and> organize_file [''extracted_files''] ''meta.xml'' self0 = Inr self0"
proof -
  have 1: "lookup (fs self0) [''extracted_files'', ''ann1.xml''] = Some (File voc_xml)"
    by code_simp
  have 2: "pascal_voc_document voc_xml" by code_simp
  have 3: "endswith ''meta.xml'' ''.xml''" by code_simp
  have 4: "lookup (fs self0) ([''extracted_files''] @ [''meta.xml'']) = Some (File meta_xml)"
    by code_simp
  have 5: "\<not> pascal_voc_document meta_xml" by code_simp
  have 6: "ET_parse meta_xml = Inr (Element ''annotation'' [Element ''filename'' []])"
    by (simp add: meta_xml_def)
  from pascal_voc_sniffer
    [of "fs self0" "[''extracted_files'', ''ann1.xml'']" "''meta.xml''" self0
        "[''extracted_files'']" meta_xml]
    1 2 3 4 5 6
  show ?thesis by auto
qed

subsection \<open>The branches of the loop body\<close>

lemma txt_not_image: "endswith file ''.txt'' \<Longrightarrow> \<not> endswith_any (lower file) [''.png'', ''.jpg'', ''.jpeg'']"
  using lower_suffix [of "file" "''.txt''"] not_image_if_last [of "file" "''.txt''"]
  by (simp add: lower_txt)

lemma json_not_image: "endswith file ''.json'' \<Longrightarrow> \<not> endswith_any (lower file) [''.png'', ''.jpg'', ''.jpeg'']"
  using lower_suffix [of "file" "''.json''"] not_image_if_last [of "file" "''.json''"]
  by (simp add: lower_json)

lemma txt_not_xml: "endswith file ''.txt'' \<Longrightarrow> \<not> endswith file ''.xml''"
  using endswith_last [of "file" "''.txt''" "''.xml''"] by auto

lemma json_not_xml: "endswith file ''.json'' \<Longrightarrow> \<not> endswith file ''.xml''"
  using endswith_last [of "file" "''.json''" "''.xml''"] by auto

lemma json_not_txt: "endswith file ''.json'' \<Longrightarrow> \<not> endswith file ''.txt''"
  using endswith_last [of "file" "''.json''" "''.txt''"] by auto

lemma organize_file_image:
  "endswith_any (lower file) [''.png'', ''.jpg'', ''.jpeg''] \<Longrightarrow>
   organize_file dirpath file self =
     and_then (shutil_move (dirpath @ [file]) (train_images_dir self @ [file]) (fs self))
       (\<lambda>t. Inr (self\<lparr>fs := t, num_images := num_images self + 1\<rparr>))"
  by (simp add: organize_file_def Let_def)

lemma organize_file_txt:
  "endswith file ''.txt'' \<Longrightarrow>
   organize_file dirpath file self =
     and_then (is_yolo (fs self) (dirpath @ [file])) (\<lambda>b.
       if b
       then and_then (move_file (dirpath @ [file]) ((base_dir self @ [''annotations'']) @ [''yolo'']) (fs self))
              (\<lambda>t. Inr (self\<lparr>fs := t, identified_format := Some ''YOLO'',
                              num_annotations := num_annotations self + 1\<rparr>))
       else Inr self)"
  using txt_not_image [of "file"] txt_not_xml [of "file"] by (simp add: organize_file_def Let_def)

lemma organize_file_json:
  "endswith file ''.json'' \<Longrightarrow>
   organize_file dirpath file self =
     and_then (is_coco (fs self) (dirpath @ [file])) (\<lambda>b.
       if b
       then and_then (move_file (dirpath @ [file]) ((base_dir self @ [''annotations'']) @ [''coco'']) (fs self))
              (\<lambda>t. Inr (self\<lparr>fs := t, identified_format := Some ''COCO'',
                              num_annotations := num_annotations self + 1\<rparr>))
       else Inr self)"
  using json_not_image [of "file"] json_not_xml [of "file"] json_not_txt [of "file"]
  by (simp add: organize_file_def Let_def)

lemma organize_file_other:
  "\<not> endswith_any (lower file) [''.png'', ''.jpg'', ''.jpeg''] \<Longrightarrow> \<not> endswith file ''.xml'' \<Longrightarrow>
   \<not> endswith file ''.txt'' \<Longrightarrow> \<not> endswith file ''.json'' \<Longrightarrow>
   organize_file dirpath file self = Inr self"
  by (simp add: organize_file_def Let_def)

text \<open>
  C9. The annotation extensions are compared with the name as it is, the image extensions
  with the name in lower case. A file whose name ends in \<open>.xml\<close>, \<open>.txt\<close> or \<open>.json\<close>
  only once it is put in lower case is never sniffed, moved or counted: the loop body
  returns the state unchanged, whatever the file holds. A file whose name in lower case
  ends in an image extension takes the image branch: it is moved and counted.
\<close>

theorem extension_case:
  "(e \<in> {''.xml'', ''.txt'', ''.json''} \<and> endswith (lower file) e \<and> \<not> endswith file e \<longrightarrow>
      organize_file dirpath file self = Inr self)
   \<and> (e' \<in> {''.png'', ''.jpg'', ''.jpeg''} \<and> endswith (lower file') e' \<longrightarrow>
      organize_file dirpath file' self =
        and_then (shutil_move (dirpath @ [file']) (train_images_dir self @ [file']) (fs self))
          (\<lambda>t. Inr (self\<lparr>fs := t, num_images := num_images self + 1\<rparr>)))"
proof (intro conjI impI)
  assume a: "e \<in> {''.xml'', ''.txt'', ''.json''} \<and> endswith (lower file) e \<and> \<not> endswith file e"
  then have e: "e \<noteq> []" "last e \<noteq> CHR ''g''" "lower e = e"
    using lower_xml lower_txt lower_json by auto
  have ni: "\<not> endswith_any (lower file) [''.png'', ''.jpg'', ''.jpeg'']"
    using not_image_if_last [of "file" e] a e by simp
  have other: "\<not> endswith file e2" if e2: "e2 \<in> {''.xml'', ''.txt'', ''.json''}" for e2
  proof
    assume f: "endswith file e2"
    have "lower e2 = e2" using e2 lower_xml lower_txt lower_json by auto
    with lower_suffix [OF f] have "endswith (lower file) e2" by simp
    with a have "last e = last e2" using endswith_last [of "lower file" e e2] e e2 by auto
    with a e2 have "e2 = e" by auto
    with f a show False by simp
  qed
  show "organize_file dirpath file self = Inr self"
    using organize_file_other [OF ni] other by simp
next
  assume "e' \<in> {''.png'', ''.jpg'', ''.jpeg''} \<and> endswith (lower file') e'"
  then have "endswith_any (lower file') [''.png'', ''.jpg'', ''.jpeg'']"
    by (auto simp: endswith_any_def)
  then show "organize_file dirpath file' self =
        and_then (shutil_move (dirpath @ [file']) (train_images_dir self @ [file']) (fs self))
          (\<lambda>t. Inr (self\<lparr>fs := t, num_images := num_images self + 1\<rparr>))"
    by (rule organize_file_image)
qed

text \<open>C9 on the names of the claim: \<open>ANN.XML\<close>, \<open>DATA.JSON\<close>, \<open>LABELS.TXT\<close> and \<open>IMG.PNG\<close>.\<close>

theorem extension_case_witness:
  "organize_file [''extracted_files''] ''ANN.XML'' self0 = Inr self0
   \<and> organize_file [''extracted_files''] ''DATA.JSON'' self0 = Inr self0
   \<and> organize_file [''extracted_files''] ''LABELS.TXT'' self0 = Inr self0
   \<and> (\<exists>t. organize_file [''extracted_files''] ''IMG.PNG'' self0 = Inr (self0\<lparr>fs := t, num_images := 1\<rparr>)
          \<and> lookup t [''converted_d.zip'', ''train_images'', ''IMG.PNG''] = Some (File image_a)
          \<and> lookup t [''extracted_files'', ''IMG.PNG''] = None)"
proof -
  have x: "endswith (lower ''ANN.XML'') ''.xml''" "\<not> endswith ''ANN.XML'' ''.xml''" by code_simp+
  have j: "endswith (lower ''DATA.JSON'') ''.json''" "\<not> endswith ''DATA.JSON'' ''.json''" by code_simp+
  have t: "endswith (lower ''LABELS.TXT'') ''.txt''" "\<not> endswith ''LABELS.TXT'' ''.txt''" by code_simp+
  have i: "endswith (lower ''IMG.PNG'') ''.png''" by code_simp
  have m: "shutil_move ([''extracted_files''] @ [''IMG.PNG'']) (train_images_dir self0 @ [''IMG.PNG'']) (fs self0)
     = Inr (put [''converted_d.zip'', ''train_images'', ''IMG.PNG''] (File image_a)
             (del [''extracted_files'', ''IMG.PNG''] (fs self0)))"
    by code_simp
  have l1: "lookup (put [''converted_d.zip'', ''train_images'', ''IMG.PNG''] (File image_a)
             (del [''extracted_files'', ''IMG.PNG''] (fs self0))) [''converted_d.zip'', ''train_images'', ''IMG.PNG''] = Some (File image_a)"
    by code_simp
  have l2: "lookup (put [''converted_d.zip'', ''train_images'', ''IMG.PNG''] (File image_a)
             (del [''extracted_files'', ''IMG.PNG''] (fs self0))) [''extracted_files'', ''IMG.PNG''] = None"
    by code_simp
  have n: "num_images self0 = 0" by (simp add: self0_def)
  from extension_case [of "''.xml''" "''ANN.XML''" "[''extracted_files'']" self0 "''.png''" "''IMG.PNG''"]
       extension_case [of "''.json''" "''DATA.JSON''" "[''extracted_files'']" self0 "''.png''" "''IMG.PNG''"]
       extension_case [of "''.txt''" "''LABELS.TXT''" "[''extracted_files'']" self0 "''.png''" "''IMG.PNG''"]
       x j t i m l1 l2 n
  show ?thesis by auto
qed

subsection \<open>The walk visits the files of the tree\<close>

lemma steps_of_Nil [simp]: "steps_of [] = []"
  by (simp add: steps_of_def)

lemma steps_of_Cons [simp]:
  "steps_of (v # vs) = map (Pair (fst v)) (snd (snd v)) @ steps_of vs"
  by (simp add: steps_of_def)

lemma steps_of_append [simp]: "steps_of (vs @ ws) = steps_of vs @ steps_of ws"
  by (simp add: steps_of_def)

lemma filenames_Cons:
  "filenames (e # es) = (if is_dir (snd e) then filenames es else fst e # filenames es)"
  by (simp add: filenames_def)

lemma dirnames_Cons:
  "dirnames (e # es) = (if is_dir (snd e) then fst e # dirnames es else dirnames es)"
  by (simp add: dirnames_def)

lemma filenames_Nil [simp]: "filenames [] = []" by (simp add: filenames_def)
lemma dirnames_Nil [simp]: "dirnames [] = []" by (simp add: dirnames_def)

text \<open>The walk visits the files of the tree, each as often as the tree holds it.\<close>

lemma walk_mset_aux:
  "mset (map step_path (steps_of (os_walk p t))) =
     (if is_dir t then mset (map (\<lambda>q. p @ q) (file_paths_in t)) else {#})"
  "mset (map step_path (steps_of (os_walk_entries p es)))
     + mset (map (\<lambda>f. p @ [f]) (filenames es)) =
   mset (map (\<lambda>q. p @ q) (file_paths_in_entries es))"
proof (induction p t and p es rule: os_walk_os_walk_entries.induct)
  case (1 dirpath c)
  show ?case by simp
next
  case (2 dirpath es)
  then show ?case by (simp add: step_path_def comp_def add.commute)
next
  case (3 dirpath)
  show ?case by simp
next
  case (4 dirpath e es)
  show ?case
  proof (cases "snd e")
    case (File c)
    with 4 show ?thesis by (simp add: filenames_Cons)
  next
    case (Dir es')
    have ap: "(@) (dirpath @ [fst e]) = (\<lambda>q. dirpath @ fst e # q)" by auto
    from Dir 4(1) have a:
      "mset (map step_path (steps_of (os_walk (dirpath @ [fst e]) (snd e)))) =
       mset (map (\<lambda>q. dirpath @ fst e # q) (file_paths_in_entries es'))"
      by (simp add: ap)
    from Dir a 4(2) show ?thesis
      by (simp add: filenames_Cons comp_def ac_simps)
  qed
qed

lemma lookup_file_paths_aux:
  "wf_node t \<Longrightarrow> q \<in> set (file_paths_in t) \<longleftrightarrow> (\<exists>c. lookup t q = Some (File c))"
  "wf_entries es \<Longrightarrow> distinct (map fst es) \<Longrightarrow>
     q \<in> set (file_paths_in_entries es) \<longleftrightarrow> (\<exists>c. lookup (Dir es) q = Some (File c))"
proof (induction t and es arbitrary: q and q rule: file_paths_in_file_paths_in_entries.induct)
  case (1 c)
  show ?case by (cases q) auto
next
  case (2 es)
  then show ?case by simp
next
  case 3
  show ?case by (cases q) auto
next
  case (4 e es)
  obtain n m where e: "e = (n, m)" by (cases e)
  show ?case
  proof (cases q)
    case Nil
    have "[] \<in> set (file_paths_in_entries es) \<longleftrightarrow> (\<exists>c. lookup (Dir es) [] = Some (File c))"
      using 4 by simp
    moreover have "[] \<notin> set (map ((#) (fst e)) (file_paths_in (snd e)))" by auto
    ultimately show ?thesis using Nil by simp
  next
    case (Cons x r)
    show ?thesis
    proof (cases "x = n")
      case True
      have "x # r \<notin> set (file_paths_in_entries es)"
      proof
        assume "x # r \<in> set (file_paths_in_entries es)"
        with 4 e have "\<exists>c. lookup (Dir es) (x # r) = Some (File c)" by simp
        then have "map_of es x \<noteq> None" by (auto split: option.splits)
        then have "x \<in> fst ` set es" by (simp add: map_of_eq_None_iff)
        with 4(4) e True show False by simp
      qed
      with 4 e Cons True show ?thesis by auto
    next
      case False
      with 4 e Cons show ?thesis by auto
    qed
  qed
qed

lemma distinct_file_paths_aux:
  "wf_node t \<Longrightarrow> distinct (file_paths_in t)"
  "wf_entries es \<Longrightarrow> distinct (map fst es) \<Longrightarrow>
     distinct (file_paths_in_entries es) \<and> (\<forall>q \<in> set (file_paths_in_entries es). q \<noteq> [] \<and> hd q \<in> fst ` set es)"
proof (induction t and es rule: file_paths_in_file_paths_in_entries.induct)
  case (1 c)
  show ?case by simp
next
  case (2 es)
  then show ?case by simp
next
  case 3
  show ?case by simp
next
  case (4 e es)
  then have d: "distinct (file_paths_in (snd e))"
    and r: "distinct (file_paths_in_entries es)" "\<forall>q \<in> set (file_paths_in_entries es). q \<noteq> [] \<and> hd q \<in> fst ` set es"
    and n: "fst e \<notin> fst ` set es"
    by auto
  have "distinct (map ((#) (fst e)) (file_paths_in (snd e)))"
    using d by (simp add: distinct_map inj_on_def)
  moreover have "set (map ((#) (fst e)) (file_paths_in (snd e))) \<inter> set (file_paths_in_entries es) = {}"
  proof -
    have "q \<notin> set (file_paths_in_entries es)" if "q \<in> set (map ((#) (fst e)) (file_paths_in (snd e)))" for q
    proof
      assume "q \<in> set (file_paths_in_entries es)"
      with r(2) have "hd q \<in> fst ` set es" by blast
      moreover from that have "hd q = fst e" by auto
      ultimately show False using n by simp
    qed
    then show ?thesis by blast
  qed
  ultimately show ?case using r by auto
qed

subsection \<open>The loop body\<close>

lemma organize_steps_append:
  "organize_steps (xs @ ys) self = and_then (organize_steps xs self) (organize_steps ys)"
proof (induction xs arbitrary: self)
  case Nil
  then show ?case by simp
next
  case (Cons s xs)
  then show ?case by (cases "organize_file (fst s) (snd s) self") simp_all
qed

lemma organize_files_steps:
  "organize_files dirpath files self = organize_steps (map (Pair dirpath) files) self"
proof (induction files arbitrary: self)
  case Nil
  then show ?case by simp
next
  case (Cons f files)
  then show ?case by (cases "organize_file dirpath f self") simp_all
qed

lemma organize_visits_steps: "organize_visits vs self = organize_steps (steps_of vs) self"
proof (induction vs arbitrary: self)
  case Nil
  then show ?case by simp
next
  case (Cons v vs)
  then show ?case
    by (cases "organize_steps (map (Pair (fst v)) (snd (snd v))) self")
       (simp_all add: organize_files_steps organize_steps_append)
qed

text \<open>What one pass of the loop body does, when it returns.\<close>

lemma organize_file_cases:
  assumes "organize_file d f self = Inr self'"
  shows "(self' = self \<and> \<not> is_image_name f \<and> detected (fs self) d f = None)
    \<or> (is_image_name f \<and> (\<exists>t'. shutil_move (d @ [f]) (train_images_dir self @ [f]) (fs self) = Inr t'
          \<and> self' = self\<lparr>fs := t', num_images := num_images self + 1\<rparr>))
    \<or> (\<not> is_image_name f \<and> (\<exists>t' k F. (k, F) \<in> {(''xml'', ''Pascal VOC''), (''yolo'', ''YOLO''), (''coco'', ''COCO'')}
          \<and> detected (fs self) d f = Some F
          \<and> move_file (d @ [f]) ((base_dir self @ [''annotations'']) @ [k]) (fs self) = Inr t'
          \<and> self' = self\<lparr>fs := t', identified_format := Some F,
                          num_annotations := num_annotations self + 1\<rparr>))"
proof -
  consider (c_img) "is_image_name f"
    | (c_xml) "\<not> is_image_name f" "endswith f ''.xml''"
    | (c_txt) "\<not> is_image_name f" "\<not> endswith f ''.xml''" "endswith f ''.txt''"
    | (c_json) "\<not> is_image_name f" "\<not> endswith f ''.xml''" "\<not> endswith f ''.txt''" "endswith f ''.json''"
    | (c_other) "\<not> is_image_name f" "\<not> endswith f ''.xml''" "\<not> endswith f ''.txt''" "\<not> endswith f ''.json''"
    by blast
  then show ?thesis
  proof cases
    case c_img
    with assms show ?thesis
      by (auto simp: organize_file_image is_image_name_def and_then_eq_Inr)
  next
    case c_xml
    with assms show ?thesis
      by (auto simp: organize_file_xml and_then_eq_Inr detected_def split: if_splits)
  next
    case c_txt
    with assms show ?thesis
      by (auto simp: organize_file_txt and_then_eq_Inr detected_def split: if_splits)
  next
    case c_json
    with assms show ?thesis
      by (auto simp: organize_file_json and_then_eq_Inr detected_def split: if_splits)
  next
    case c_other
    with assms show ?thesis
      by (simp add: organize_file_other is_image_name_def detected_def)
  qed
qed

lemma organize_file_unmatched:
  assumes "organize_file d f self = Inr self'" "\<not> is_image_name f" "detected (fs self) d f = None"
  shows "self' = self"
proof -
  consider (c_xml) "endswith f ''.xml''"
    | (c_txt) "\<not> endswith f ''.xml''" "endswith f ''.txt''"
    | (c_json) "\<not> endswith f ''.xml''" "\<not> endswith f ''.txt''" "endswith f ''.json''"
    | (c_other) "\<not> endswith f ''.xml''" "\<not> endswith f ''.txt''" "\<not> endswith f ''.json''"
    by blast
  then show ?thesis
  proof cases
    case c_xml
    with assms show ?thesis
      by (auto simp: organize_file_xml and_then_eq_Inr detected_def split: if_splits)
  next
    case c_txt
    with assms show ?thesis
      by (auto simp: organize_file_txt and_then_eq_Inr detected_def split: if_splits)
  next
    case c_json
    with assms show ?thesis
      by (auto simp: organize_file_json and_then_eq_Inr detected_def split: if_splits)
  next
    case c_other
    with assms show ?thesis
      by (simp add: organize_file_other is_image_name_def)
  qed
qed

subsection \<open>The walk leaves the files still to visit alone\<close>

lemma formats_Nil [simp]: "formats t [] = []"
  by (simp add: formats_def map_filter_simps)

lemma formats_Cons:
  "formats t (s # ss) =
     (case detected t (fst s) (snd s) of None \<Rightarrow> formats t ss | Some F \<Rightarrow> F # formats t ss)"
  by (simp add: formats_def map_filter_simps split: option.splits)

text \<open>A sniffer reads the file at its path and nothing else.\<close>

lemma open_read_cong: "lookup t p = lookup t' p \<Longrightarrow> open_read t p = open_read t' p"
  by (simp add: open_read_def)

lemma detected_cong:
  "lookup t (d @ [f]) = lookup t' (d @ [f]) \<Longrightarrow> detected t d f = detected t' d f"
  by (simp add: detected_def is_pascal_voc_def is_yolo_def is_coco_def
      open_read_cong [of t "d @ [f]" t'])

lemma formats_cong:
  "\<forall>s \<in> set steps. lookup t (step_path s) = lookup t' (step_path s) \<Longrightarrow>
   formats t steps = formats t' steps"
proof (induction steps)
  case Nil
  then show ?case by simp
next
  case (Cons s ss)
  then have "detected t (fst s) (snd s) = detected t' (fst s) (snd s)"
    using detected_cong [of t "fst s" "snd s" t'] by (simp add: step_path_def)
  with Cons show ?case by (simp add: formats_Cons split: option.splits)
qed

lemma files_unrelated:
  assumes "lookup t p = Some (File c)" "lookup t q = Some (File c')" "p \<noteq> q"
  shows "\<not> prefix p q"
proof
  assume "prefix p q"
  then obtain r where q: "q = p @ r" by (auto simp: prefix_def)
  with assms(3) have "r \<noteq> []" by auto
  with assms(1) have "lookup t q = None" by (simp add: q lookup_append lookup_File)
  with assms(2) show False by simp
qed

lemma hd_not_prefix: "q \<noteq> [] \<Longrightarrow> p \<noteq> [] \<Longrightarrow> hd q \<noteq> hd p \<Longrightarrow> \<not> prefix q p \<and> \<not> prefix p q"
  by (cases q; cases p) auto

lemma shutil_move_frame:
  assumes "shutil_move src dst t = Inr t'" "q \<noteq> []" "dst \<noteq> []" "hd q \<noteq> hd dst"
    "\<not> prefix q src" "\<not> prefix src q"
  shows "lookup t' q = lookup t q"
proof -
  from assms(1) obtain c dst' where t': "t' = put dst' (File c) (del src t)"
    and dst': "dst' = dst \<or> dst' = dst @ [last src]"
    by (auto simp: shutil_move_eq_Inr split: if_splits)
  from dst' assms(3) have "dst' \<noteq> []" "hd dst' = hd dst" by auto
  with assms(2,4) have "\<not> prefix q dst' \<and> \<not> prefix dst' q"
    using hd_not_prefix [of q dst'] by simp
  then show ?thesis using assms(5,6) by (simp add: t' lookup_put_other lookup_del_other)
qed

lemma move_file_frame:
  assumes "move_file src dstdir t = Inr t'" "q \<noteq> []" "dstdir \<noteq> []" "hd q \<noteq> hd dstdir"
    "\<not> prefix q src" "\<not> prefix src q"
  shows "lookup t' q = lookup t q"
proof -
  from assms(1) obtain t1 where t1: "os_makedirs dstdir t = Inr t1"
    and m: "shutil_move src dstdir t1 = Inr t'"
    by (auto simp: move_file_def and_then_eq_Inr)
  have "\<not> prefix q dstdir" using hd_not_prefix [of q dstdir] assms by simp
  with t1 have "lookup t1 q = lookup t q" by (rule os_makedirs_other)
  with shutil_move_frame [OF m assms(2,3,4,5,6)] show ?thesis by simp
qed

text \<open>One pass of the loop body leaves the rest of the scratch area alone.\<close>

lemma organize_file_frame:
  assumes "organize_file d f self = Inr self'" "initialised self"
    "q \<noteq> []" "hd q = ''extracted_files''" "\<not> prefix q (d @ [f])" "\<not> prefix (d @ [f]) q"
  shows "lookup (fs self') q = lookup (fs self) q"
proof -
  from assms(2) obtain b where b: "b \<noteq> ''extracted_files''" "base_dir self = [b]"
    "train_images_dir self = [b, ''train_images'']"
    by (auto simp: initialised_def)
  from organize_file_cases [OF assms(1)] show ?thesis
  proof (elim disjE conjE exE)
    assume "self' = self"
    then show ?thesis by simp
  next
    fix t' assume m: "shutil_move (d @ [f]) (train_images_dir self @ [f]) (fs self) = Inr t'"
      and s: "self' = self\<lparr>fs := t', num_images := num_images self + 1\<rparr>"
    from shutil_move_frame [OF m assms(3) _ _ assms(5,6)] b assms(4)
    show ?thesis by (simp add: s)
  next
    fix t' k F
    assume m: "move_file (d @ [f]) ((base_dir self @ [''annotations'']) @ [k]) (fs self) = Inr t'"
      and s: "self' = self\<lparr>fs := t', identified_format := Some F,
                          num_annotations := num_annotations self + 1\<rparr>"
    from move_file_frame [OF m assms(3) _ _ assms(5,6)] b assms(4)
    show ?thesis by (simp add: s)
  qed
qed

lemma organize_file_fields:
  assumes "organize_file d f self = Inr self'"
  shows "base_dir self' = base_dir self" "train_images_dir self' = train_images_dir self"
    "extract_dir self' = extract_dir self" "zip_path self' = zip_path self"
    "cocos_dir self' = cocos_dir self"
  using organize_file_cases [OF assms] by auto

lemma organize_file_initialised:
  "organize_file d f self = Inr self' \<Longrightarrow> initialised self' = initialised self"
  by (simp add: initialised_def organize_file_fields)

lemma organize_file_format:
  assumes "organize_file d f self = Inr self'"
  shows "identified_format self' =
     (case detected (fs self) d f of None \<Rightarrow> identified_format self | Some F \<Rightarrow> Some F)"
proof (cases "is_image_name f")
  case True
  then have "detected (fs self) d f = None" by (simp add: detected_def)
  with organize_file_cases [OF assms] True show ?thesis by auto
next
  case False
  show ?thesis
  proof (cases "detected (fs self) d f")
    case None
    with organize_file_unmatched [OF assms False] show ?thesis by simp
  next
    case (Some F)
    with organize_file_cases [OF assms] False show ?thesis by auto
  qed
qed

lemma organize_file_counts:
  assumes "organize_file d f self = Inr self'"
  shows "num_images self' = num_images self + (if is_image_name f then 1 else 0)"
    and "num_annotations self' =
           num_annotations self + (case detected (fs self) d f of None \<Rightarrow> 0 | Some F \<Rightarrow> 1)"
proof -
  have n: "detected (fs self) d f = None" if "is_image_name f"
    using that by (simp add: detected_def)
  from organize_file_cases [OF assms] n
  show "num_images self' = num_images self + (if is_image_name f then 1 else 0)"
    and "num_annotations self' =
           num_annotations self + (case detected (fs self) d f of None \<Rightarrow> 0 | Some F \<Rightarrow> 1)"
    by auto
qed

lemma organize_steps_num_images:
  "organize_steps steps self = Inr self' \<Longrightarrow>
   num_images self' = num_images self + int (length (filter is_image_name (map snd steps)))"
proof (induction steps arbitrary: self)
  case Nil
  then show ?case by simp
next
  case (Cons s ss)
  then obtain s1 where s1: "organize_file (fst s) (snd s) self = Inr s1"
    and r: "organize_steps ss s1 = Inr self'"
    by (auto simp: and_then_eq_Inr)
  from Cons.IH [OF r] organize_file_counts(1) [OF s1] show ?case by simp
qed

text \<open>
  The walk as a whole, seen from the tree it starts on: the files still to be visited
  are where they were, so each sniffer answers as it would have at the start.
\<close>

lemma organize_steps_snapshot:
  assumes "initialised self" "distinct (map step_path steps)"
    "\<forall>s \<in> set steps. fst s \<noteq> [] \<and> hd (fst s) = ''extracted_files''
        \<and> (\<exists>c. lookup (fs self) (step_path s) = Some (File c))"
    "organize_steps steps self = Inr self'"
  shows "identified_format self' =
           (case formats (fs self) steps of [] \<Rightarrow> identified_format self | l \<Rightarrow> Some (last l))
         \<and> num_annotations self' = num_annotations self + int (length (formats (fs self) steps))"
  using assms
proof (induction steps arbitrary: self)
  case Nil
  then show ?case by simp
next
  case (Cons s ss)
  from Cons.prems(4) obtain s1 where s1: "organize_file (fst s) (snd s) self = Inr s1"
    and r: "organize_steps ss s1 = Inr self'"
    by (auto simp: and_then_eq_Inr)
  from Cons.prems(3) obtain c where c: "lookup (fs self) (step_path s) = Some (File c)" by auto
  have same: "lookup (fs s1) (step_path s') = lookup (fs self) (step_path s')"
    if "s' \<in> set ss" for s'
  proof -
    from that Cons.prems(3) obtain c' where
      c': "lookup (fs self) (step_path s') = Some (File c')"
      and h: "fst s' \<noteq> []" "hd (fst s') = ''extracted_files''"
      by auto
    from that Cons.prems(2) have ne: "step_path s \<noteq> step_path s'" by auto
    have "\<not> prefix (step_path s') (step_path s)" "\<not> prefix (step_path s) (step_path s')"
      using files_unrelated [OF c' c] files_unrelated [OF c c'] ne by auto
    moreover have "step_path s' \<noteq> []" "hd (step_path s') = ''extracted_files''"
      using h by (simp_all add: step_path_def)
    ultimately show ?thesis
      using organize_file_frame [OF s1 Cons.prems(1), of "step_path s'"]
      by (simp add: step_path_def)
  qed
  have i1: "initialised s1" using organize_file_initialised [OF s1] Cons.prems(1) by simp
  have d1: "distinct (map step_path ss)" using Cons.prems(2) by simp
  have f1: "\<forall>s' \<in> set ss. fst s' \<noteq> [] \<and> hd (fst s') = ''extracted_files''
        \<and> (\<exists>c. lookup (fs s1) (step_path s') = Some (File c))"
    using Cons.prems(3) same by auto
  from Cons.IH [OF i1 d1 f1 r] have ih:
    "identified_format self' =
       (case formats (fs s1) ss of [] \<Rightarrow> identified_format s1 | l \<Rightarrow> Some (last l))"
    "num_annotations self' = num_annotations s1 + int (length (formats (fs s1) ss))"
    by auto
  have fe: "formats (fs s1) ss = formats (fs self) ss"
    using same by (intro formats_cong) simp
  show ?case
  proof (cases "detected (fs self) (fst s) (snd s)")
    case None
    with ih fe organize_file_format [OF s1] organize_file_counts(2) [OF s1]
    show ?thesis by (simp add: formats_Cons split: list.splits)
  next
    case (Some F)
    with ih fe organize_file_format [OF s1] organize_file_counts(2) [OF s1]
    show ?thesis by (simp add: formats_Cons split: list.splits)
  qed
qed

lemma os_walk_prefix:
  "v \<in> set (os_walk p t) \<Longrightarrow> prefix p (fst v)"
  "v \<in> set (os_walk_entries p es) \<Longrightarrow> prefix p (fst v)"
proof (induction p t and p es rule: os_walk_os_walk_entries.induct)
  case (1 dirpath c)
  then show ?case by simp
next
  case (2 dirpath es)
  then show ?case by auto
next
  case (3 dirpath)
  then show ?case by simp
next
  case (4 dirpath e es)
  then show ?case by (auto dest: append_prefixD)
qed

lemma steps_of_fst: "s \<in> set (steps_of vs) \<Longrightarrow> \<exists>v \<in> set vs. fst s = fst v"
proof (induction vs)
  case Nil
  then show ?case by simp
next
  case (Cons v vs)
  then show ?case by auto
qed

text \<open>The steps of a walk over a well-formed tree.\<close>

lemma walk_steps:
  assumes "lookup t0 p = Some t" "wf_node t" "p \<noteq> []"
  shows "distinct (map step_path (steps_of (os_walk p t)))"
    and "\<forall>s \<in> set (steps_of (os_walk p t)). fst s \<noteq> [] \<and> hd (fst s) = hd p
           \<and> (\<exists>c. lookup t0 (step_path s) = Some (File c))"
proof -
  let ?ps = "map step_path (steps_of (os_walk p t))"
  have m: "mset ?ps = (if is_dir t then mset (map (\<lambda>q. p @ q) (file_paths_in t)) else {#})"
    by (rule walk_mset_aux(1))
  have d: "distinct (map (\<lambda>q. p @ q) (file_paths_in t))"
    using distinct_file_paths_aux(1) [OF assms(2)] by (simp add: distinct_map inj_on_def)
  show "distinct ?ps"
  proof (cases "is_dir t")
    case True
    with m have "mset ?ps = mset (map (\<lambda>q. p @ q) (file_paths_in t))" by simp
    from mset_eq_imp_distinct_iff [OF this] d show ?thesis by simp
  next
    case False
    with m have "?ps = []" by simp
    then show ?thesis by simp
  qed
  show "\<forall>s \<in> set (steps_of (os_walk p t)). fst s \<noteq> [] \<and> hd (fst s) = hd p
           \<and> (\<exists>c. lookup t0 (step_path s) = Some (File c))"
  proof
    fix s assume s: "s \<in> set (steps_of (os_walk p t))"
    then obtain v where "v \<in> set (os_walk p t)" "fst s = fst v" using steps_of_fst by blast
    then have "prefix p (fst s)" using os_walk_prefix(1) by metis
    with assms(3) have h: "fst s \<noteq> []" "hd (fst s) = hd p" by (auto simp: prefix_def)
    from s have "step_path s \<in># mset ?ps" by simp
    with m have "step_path s \<in> set (map (\<lambda>q. p @ q) (file_paths_in t))"
      by (auto split: if_splits)
    then obtain q where q: "step_path s = p @ q" "q \<in> set (file_paths_in t)" by auto
    with lookup_file_paths_aux(1) [OF assms(2)] obtain c where "lookup t q = Some (File c)"
      by auto
    with assms(1) q have "lookup t0 (step_path s) = Some (File c)" by (simp add: lookup_append)
    with h show "fst s \<noteq> [] \<and> hd (fst s) = hd p \<and> (\<exists>c. lookup t0 (step_path s) = Some (File c))"
      by auto
  qed
qed

text \<open>The method runs the loop on the walk of the tree it is called on.\<close>

lemma organize_method:
  assumes "initialised self" "organize_files_and_identify_format self = Inr self'"
  obtains t1 where "os_makedirs (base_dir self @ [''annotations'']) (fs self) = Inr t1"
    and "organize_steps (steps_of (walk_of (fs self) (extract_dir self))) (self\<lparr>fs := t1\<rparr>) = Inr self'"
    and "\<And>q. q \<noteq> [] \<Longrightarrow> hd q = ''extracted_files'' \<Longrightarrow> lookup t1 q = lookup (fs self) q"
proof -
  from assms(1) obtain b where b: "b \<noteq> ''extracted_files''" "base_dir self = [b]"
    "extract_dir self = [''extracted_files'']"
    by (auto simp: initialised_def)
  from assms(2) obtain t1 where t1: "os_makedirs (base_dir self @ [''annotations'']) (fs self) = Inr t1"
    and w: "organize_visits (walk_of t1 (extract_dir self)) (self\<lparr>fs := t1\<rparr>) = Inr self'"
    by (auto simp: organize_files_and_identify_format_def and_then_eq_Inr)
  have same: "lookup t1 q = lookup (fs self) q" if "q \<noteq> []" "hd q = ''extracted_files''" for q
  proof -
    have "\<not> prefix q (base_dir self @ [''annotations''])"
      using that b by (cases q) auto
    with t1 show ?thesis by (rule os_makedirs_other)
  qed
  then have "walk_of t1 (extract_dir self) = walk_of (fs self) (extract_dir self)"
    by (simp add: walk_of_def b)
  with w have "organize_steps (steps_of (walk_of (fs self) (extract_dir self))) (self\<lparr>fs := t1\<rparr>) = Inr self'"
    by (simp add: organize_visits_steps)
  with t1 same show ?thesis using that by blast
qed

text \<open>
  C3. The format is one attribute, so a run records at most one. When the method
  returns, the attribute holds the literal of the last file of the walk that a sniffer
  accepted, whatever the files before it were taken for; if no file was accepted it is
  what it was. The files are those of the scratch area in the order \<open>os.walk\<close> yields
  them, and each is judged as it lies there when the method is called.
\<close>

theorem last_match_wins:
  assumes "initialised self" "lookup (fs self) (extract_dir self) = Some t" "wf_node t"
    "organize_files_and_identify_format self = Inr self'"
  shows "identified_format self' =
     (case formats (fs self) (steps_of (os_walk (extract_dir self) t)) of
        [] \<Rightarrow> identified_format self
      | l \<Rightarrow> Some (last l))"
proof -
  let ?steps = "steps_of (os_walk (extract_dir self) t)"
  from assms(1) have x: "extract_dir self = [''extracted_files'']" by (simp add: initialised_def)
  from organize_method [OF assms(1,4)] obtain t1 where
    r: "organize_steps (steps_of (walk_of (fs self) (extract_dir self))) (self\<lparr>fs := t1\<rparr>) = Inr self'"
    and same: "\<And>q. q \<noteq> [] \<Longrightarrow> hd q = ''extracted_files'' \<Longrightarrow> lookup t1 q = lookup (fs self) q"
    by blast
  from r assms(2) have r': "organize_steps ?steps (self\<lparr>fs := t1\<rparr>) = Inr self'"
    by (simp add: walk_of_def)
  have w: "distinct (map step_path ?steps)"
    "\<forall>s \<in> set ?steps. fst s \<noteq> [] \<and> hd (fst s) = hd (extract_dir self)
        \<and> (\<exists>c. lookup (fs self) (step_path s) = Some (File c))"
    using walk_steps [OF assms(2,3)] x by auto
  have eq: "lookup t1 (step_path s) = lookup (fs self) (step_path s)" if "s \<in> set ?steps" for s
    using w(2) that x by (intro same) (auto simp: step_path_def)
  have i: "initialised (self\<lparr>fs := t1\<rparr>)" using assms(1) by (simp add: initialised_def)
  have f: "\<forall>s \<in> set ?steps. fst s \<noteq> [] \<and> hd (fst s) = ''extracted_files''
        \<and> (\<exists>c. lookup (fs (self\<lparr>fs := t1\<rparr>)) (step_path s) = Some (File c))"
    using w(2) eq x by auto
  have "formats t1 ?steps = formats (fs self) ?steps"
    using eq by (intro formats_cong) simp
  with organize_steps_snapshot [OF i w(1) f r'] show ?thesis
    by (simp split: list.splits)
qed

lemma initialised_self0: "initialised self0"
  by (simp add: initialised_def self0_def)

text \<open>
  C3 on the example: a Pascal VOC file, then a COCO file, then a label file are
  accepted, and the format recorded is \<open>YOLO\<close>.
\<close>

theorem last_match_wins_witness:
  "formats (fs self0) (steps_of (os_walk [''extracted_files''] scratch0)) = [''Pascal VOC'', ''COCO'', ''YOLO'']
   \<and> (case organize_files_and_identify_format self0 of
         Inl e \<Rightarrow> False | Inr self' \<Rightarrow> identified_format self' = Some ''YOLO'')"
proof -
  have f: "formats (fs self0) (steps_of (os_walk [''extracted_files''] scratch0)) = [''Pascal VOC'', ''COCO'', ''YOLO'']"
    by code_simp
  have x: "extract_dir self0 = [''extracted_files'']" by (simp add: self0_def)
  have l: "lookup (fs self0) (extract_dir self0) = Some scratch0" by code_simp
  have w: "wf_node scratch0" by code_simp
  have "case organize_files_and_identify_format self0 of Inl e \<Rightarrow> False | Inr self' \<Rightarrow> True"
    by code_simp
  then obtain self' where r: "organize_files_and_identify_format self0 = Inr self'"
    by (cases "organize_files_and_identify_format self0") auto
  from last_match_wins [OF initialised_self0 l w r] f x
  have "identified_format self' = Some ''YOLO''" by simp
  with r f show ?thesis by simp
qed

end
